theory Spec2Isabelle
  imports Complex_Main "HOL-Library.Sublist"
begin

section \<open>The link checker of server.js\<close>

text \<open>
  The crawler of \<^verbatim>\<open>src/server.js\<close> is a JavaScript class whose methods run on a
  single-threaded event loop.  Every stretch of code between two \<^verbatim>\<open>await\<close>s runs to
  completion without interruption, so the embedding has one function per such stretch and
  a step function that picks the stretch an incoming event (a response, a timer, a stop
  request) resumes.  Fields of the class are fields of the record \<open>crawler\<close>; what the
  code does to the outside world (socket events, HTTP requests, timers, HTML parsing) is
  appended to the field \<open>trace\<close>, in the order the code does it.
\<close>

subsection \<open>The URL objects of the platform\<close>

text \<open>
  \<^verbatim>\<open>new URL(input, base)\<close> is the platform's parser, not code of the repository: it is a
  parameter \<open>U\<close> of every function that calls it (\<open>None\<close> when it throws).  A URL object
  holds the components the platform keeps; \<open>toString\<close> puts them together the way the
  platform serialises them, and assigning the empty string to \<^verbatim>\<open>hash\<close> removes the
  fragment.
\<close>

record url =
  url_scheme :: string
  url_credentials :: string
  url_host :: "string option"
  url_port :: string
  url_path :: string
  url_query :: "string option"
  url_fragment :: "string option"

type_synonym new_URL = "string \<Rightarrow> string option \<Rightarrow> url option"

definition toString :: "url \<Rightarrow> string" where
  "toString p =
     url_scheme p @ '':'' @
     (case url_host p of
        None \<Rightarrow> []
      | Some h \<Rightarrow> ''//'' @ url_credentials p @ h @ url_port p) @
     url_path p @
     (case url_query p of None \<Rightarrow> [] | Some q \<Rightarrow> ''?'' @ q) @
     (case url_fragment p of None \<Rightarrow> [] | Some f \<Rightarrow> ''#'' @ f)"

definition hostname :: "url \<Rightarrow> string" where
  "hostname p = (case url_host p of None \<Rightarrow> [] | Some h \<Rightarrow> h)"

definition startsWith :: "string \<Rightarrow> string \<Rightarrow> bool" where
  "startsWith s p \<longleftrightarrow> take (length p) s = p"

definition endsWith :: "string \<Rightarrow> string \<Rightarrow> bool" where
  "endsWith s p \<longleftrightarrow> length p \<le> length s \<and> drop (length s - length p) s = p"

fun includes_str :: "string \<Rightarrow> string \<Rightarrow> bool" where
  "includes_str [] p = (p = [])"
| "includes_str (x # xs) p = (startsWith (x # xs) p \<or> includes_str xs p)"

text \<open>\<^verbatim>\<open>normalizeUrl\<close> (lines 15-23): parse, drop the fragment, serialise; null on failure.\<close>

definition normalizeUrl :: "new_URL \<Rightarrow> string \<Rightarrow> string option" where
  "normalizeUrl U u =
     (case U u None of
        None \<Rightarrow> None
      | Some parsed \<Rightarrow> Some (toString (parsed\<lparr>url_fragment := None\<rparr>)))"

subsection \<open>Data\<close>

text \<open>The status of a broken link is an HTTP status or the string \<^verbatim>\<open>'Error'\<close>.\<close>

datatype status = Code int | ErrorMarker

record broken_link =
  bl_url :: string
  bl_status :: status
  bl_source :: string

text \<open>
  Socket events.  The free-text payloads of \<^verbatim>\<open>log\<close> and \<^verbatim>\<open>error\<close> are kept as the
  place that emits them together with the values interpolated into the text.  The fields
  of \<open>Progress\<close> are \<^verbatim>\<open>url\<close>, \<^verbatim>\<open>count\<close>, \<^verbatim>\<open>queueSize\<close> and \<^verbatim>\<open>depth\<close>.
\<close>

datatype event =
    Log_start string rat
  | Log_crawling int string
  | Log_done
  | Log_stopped
  | Progress string int nat int
  | Broken_link broken_link
  | Error_invalid_start
  | Error_fetch string
  | Finished "broken_link list"

text \<open>
  Effects: \<open>Page_get\<close> is the \<^verbatim>\<open>axios.get\<close> of line 90 (timeout 10000), \<open>Head_req\<close> and
  \<open>Get_req\<close> the requests of \<^verbatim>\<open>checkExternalLink\<close> (timeout 5000), \<open>Load_html\<close> the
  \<^verbatim>\<open>cheerio.load\<close> of line 109 with the frontier item it works on, \<open>Sleep\<close> a
  \<^verbatim>\<open>setTimeout\<close> with its milliseconds.
\<close>

datatype effect =
    Emit event
  | Page_get string
  | Head_req string
  | Get_req string
  | Load_html string int
  | Sleep nat

text \<open>
  What the environment hands back.  A page response carries its status, its
  \<^verbatim>\<open>content-type\<close> header and the \<^verbatim>\<open>href\<close> attribute of every anchor of the body in
  document order (\<open>None\<close> for an anchor without one).
\<close>

datatype page_result = Page_failed | Page_response int "string option" "string option list"

datatype check_result = Check_failed | Check_response int

text \<open>
  Objects shared by reference live in a heap: the options object of the caller and the
  arrays of domain names.  An address is an index into the heap.
\<close>

record options =
  opt_maxPages :: "rat option"
  opt_maxDepth :: "rat option"
  opt_allowedDomains :: "nat option"

datatype obj = Arr "string list" | Opts options

definition array_at :: "obj list \<Rightarrow> nat \<Rightarrow> string list" where
  "array_at h a =
     (if a < length h then (case h ! a of Arr ds \<Rightarrow> ds | Opts _ \<Rightarrow> []) else [])"

definition is_array :: "obj list \<Rightarrow> nat \<Rightarrow> bool" where
  "is_array h a \<longleftrightarrow> a < length h \<and> (case h ! a of Arr _ \<Rightarrow> True | Opts _ \<Rightarrow> False)"

definition options_at :: "obj list \<Rightarrow> nat \<Rightarrow> options" where
  "options_at h r =
     (let none = \<lparr>opt_maxPages = None, opt_maxDepth = None, opt_allowedDomains = None\<rparr>
      in if r < length h then (case h ! r of Opts opts \<Rightarrow> opts | Arr _ \<Rightarrow> none) else none)"

text \<open>Where the main control flow of \<^verbatim>\<open>start\<close> is suspended.\<close>

datatype pc = Not_started | Await_page string int | Await_delay | Await_poll | Returned

text \<open>
  A call of \<^verbatim>\<open>checkExternalLink\<close> that has begun: its arguments and where it is
  suspended.  \<open>Settled\<close>: the call has returned and its \<^verbatim>\<open>finally\<close> callback has not
  run yet.
\<close>

datatype phase = Await_head | Await_get | Settled

record crawler =
  startUrl :: "string option"
  visited :: "string set"
  checkedLinks :: "string set"
  queue :: "(string \<times> int) list"
  brokenLinks :: "broken_link list"
  isRunning :: bool
  maxPages :: rat
  maxDepth :: rat
  allowedDomains :: nat
  crawledCount :: int
  activeRequests :: int
  maxConcurrency :: int
  externalCheckQueue :: "(string \<times> string) list"
  isProcessingExternal :: bool
  pc :: pc
  inflight :: "(string \<times> string \<times> phase) list"
  trace :: "effect list"
  heap :: "obj list"

subsection \<open>The constructor (lines 38-62)\<close>

text \<open>
  The two limits are the numbers the caller sent, kept as they are (lines 46-47 check
  nothing): any finite JavaScript number, negative or fractional, here a rational.  The
  page counter and the depths start at 0 and grow by 1, so they are integers, and the
  comparisons of lines 73 and 107 compare an integer with a rational.
  \<^verbatim>\<open>v || d\<close> on an optional number: the default replaces undefined and 0.
\<close>

definition or_default :: "rat option \<Rightarrow> rat \<Rightarrow> rat" where
  "or_default v d = (case v of None \<Rightarrow> d | Some n \<Rightarrow> if n = 0 then d else n)"

text \<open>
  The frontier starts as the one item \<^verbatim>\<open>{url: this.startUrl, depth: 0}\<close>.  When
  \<^verbatim>\<open>startUrl\<close> is null, \<^verbatim>\<open>start\<close> returns at line 67 before it reads the queue, and
  nothing else reads it: the model leaves the queue empty in that case, so that frontier
  URLs are plain strings.  \<^verbatim>\<open>new URL(null)\<close> at line 57 throws, and so does
  \<^verbatim>\<open>includes\<close> at line 58 when \<^verbatim>\<open>allowedDomains\<close> is not an array; the \<^verbatim>\<open>catch\<close> of
  line 61 swallows both.
\<close>

definition constructor :: "new_URL \<Rightarrow> string \<Rightarrow> nat \<Rightarrow> obj list \<Rightarrow> crawler" where
  "constructor U url_arg options_ref h =
     (let opts = options_at h options_ref;
          start_url = normalizeUrl U url_arg;
          (domains, h1) =
            (case opt_allowedDomains opts of
               Some a \<Rightarrow> (a, h)
             | None \<Rightarrow> (length h, h @ [Arr []]));
          h2 =
            (case start_url of
               None \<Rightarrow> h1
             | Some s \<Rightarrow>
                 (case U s None of
                    None \<Rightarrow> h1
                  | Some parsed \<Rightarrow>
                      (let startHost = hostname parsed
                       in if is_array h1 domains \<and> startHost \<notin> set (array_at h1 domains)
                          then h1[domains := Arr (array_at h1 domains @ [startHost])]
                          else h1)))
      in \<lparr>startUrl = start_url,
          visited = {},
          checkedLinks = {},
          queue = (case start_url of None \<Rightarrow> [] | Some s \<Rightarrow> [(s, 0)]),
          brokenLinks = [],
          isRunning = False,
          maxPages = or_default (opt_maxPages opts) 50,
          maxDepth = or_default (opt_maxDepth opts) 3,
          allowedDomains = domains,
          crawledCount = 0,
          activeRequests = 0,
          maxConcurrency = 5,
          externalCheckQueue = [],
          isProcessingExternal = False,
          pc = Not_started,
          inflight = [],
          trace = [],
          heap = h2\<rparr>)"

subsection \<open>Reporting (lines 172-176)\<close>

definition effect :: "effect \<Rightarrow> crawler \<Rightarrow> crawler" where
  "effect e c = c\<lparr>trace := trace c @ [e]\<rparr>"

definition emit :: "event \<Rightarrow> crawler \<Rightarrow> crawler" where
  "emit e c = effect (Emit e) c"

definition reportBroken :: "string \<Rightarrow> status \<Rightarrow> string \<Rightarrow> crawler \<Rightarrow> crawler" where
  "reportBroken u st src c =
     (let item = \<lparr>bl_url = u, bl_status = st, bl_source = src\<rparr>
      in emit (Broken_link item) (c\<lparr>brokenLinks := brokenLinks c @ [item]\<rparr>))"

subsection \<open>The external check queue (lines 178-193)\<close>

text \<open>
  The loop of \<^verbatim>\<open>processExternalQueue\<close>.  Calling \<^verbatim>\<open>checkExternalLink\<close> runs it up
  to its first \<^verbatim>\<open>await\<close>: the HEAD request is sent and the call is in flight.
\<close>

definition drain_cond :: "crawler \<Rightarrow> bool" where
  "drain_cond c \<longleftrightarrow>
     externalCheckQueue c \<noteq> [] \<and> activeRequests c < maxConcurrency c \<and> isRunning c"

definition drain_body :: "crawler \<Rightarrow> crawler" where
  "drain_body c =
     (let item = hd (externalCheckQueue c);
          c1 = c\<lparr>externalCheckQueue := tl (externalCheckQueue c)\<rparr>;
          c2 = c1\<lparr>activeRequests := activeRequests c1 + 1\<rparr>
      in effect (Head_req (fst item))
           (c2\<lparr>inflight := inflight c2 @ [(fst item, snd item, Await_head)]\<rparr>))"

function drain :: "crawler \<Rightarrow> crawler" where
  "drain c = (if drain_cond c then drain (drain_body c) else c)"
  by pat_completeness auto
termination
  by (relation "measure (\<lambda>c. length (externalCheckQueue c))")
     (auto simp: drain_cond_def drain_body_def effect_def Let_def)

definition processExternalQueue :: "crawler \<Rightarrow> crawler" where
  "processExternalQueue c =
     (if isProcessingExternal c then c
      else (drain (c\<lparr>isProcessingExternal := True\<rparr>))\<lparr>isProcessingExternal := False\<rparr>)"

subsection \<open>Verifying one external link (lines 195-220)\<close>

text \<open>
  \<^verbatim>\<open>checkExternalLink\<close> after its HEAD request has come back, and after its GET request
  has come back.  A rejected request lands in the \<^verbatim>\<open>catch\<close> block.  \<open>i\<close> is the place
  of the call among the calls in flight.
\<close>

definition settle :: "nat \<Rightarrow> crawler \<Rightarrow> crawler" where
  "settle i c =
     (case inflight c ! i of
        (u, src, _) \<Rightarrow> c\<lparr>inflight := (inflight c)[i := (u, src, Settled)]\<rparr>)"

definition report_status :: "string \<Rightarrow> string \<Rightarrow> int \<Rightarrow> crawler \<Rightarrow> crawler" where
  "report_status u src st c = (if st \<ge> 400 then reportBroken u (Code st) src c else c)"

definition checkExternalLink_after_head :: "nat \<Rightarrow> check_result \<Rightarrow> crawler \<Rightarrow> crawler" where
  "checkExternalLink_after_head i r c =
     (case inflight c ! i of
        (u, src, _) \<Rightarrow>
          (case r of
             Check_failed \<Rightarrow> settle i (reportBroken u ErrorMarker src c)
           | Check_response st \<Rightarrow>
               if st \<ge> 400 \<and> st \<noteq> 405
               then effect (Get_req u) (c\<lparr>inflight := (inflight c)[i := (u, src, Await_get)]\<rparr>)
               else settle i (report_status u src st c)))"

definition checkExternalLink_after_get :: "nat \<Rightarrow> check_result \<Rightarrow> crawler \<Rightarrow> crawler" where
  "checkExternalLink_after_get i r c =
     (case inflight c ! i of
        (u, src, _) \<Rightarrow>
          (case r of
             Check_failed \<Rightarrow> settle i (reportBroken u ErrorMarker src c)
           | Check_response st \<Rightarrow> settle i (report_status u src st c)))"

text \<open>The \<^verbatim>\<open>finally\<close> callback of lines 186-189.\<close>

definition check_finally :: "nat \<Rightarrow> crawler \<Rightarrow> crawler" where
  "check_finally i c =
     processExternalQueue
       (c\<lparr>inflight := take i (inflight c) @ drop (Suc i) (inflight c),
          activeRequests := activeRequests c - 1\<rparr>)"

subsection \<open>Handling one anchor (lines 112-150)\<close>

text \<open>
  The callback of \<^verbatim>\<open>links.each\<close>.  \<open>Inr\<close> is a normal return; \<open>Inl\<close> is the state in
  which \<^verbatim>\<open>new URL(absoluteUrl)\<close> of line 131 threw, or \<^verbatim>\<open>some\<close> of line 137 on
  something that is not an array, which leaves the callback and the iteration and lands
  in the \<^verbatim>\<open>catch\<close> of line 152.
\<close>

definition isAllowed :: "string list \<Rightarrow> string \<Rightarrow> bool" where
  "isAllowed domains urlHostname \<longleftrightarrow>
     list_ex (\<lambda>domain. urlHostname = domain \<or> endsWith urlHostname (''.'' @ domain)) domains"

definition classify :: "new_URL \<Rightarrow> string \<Rightarrow> int \<Rightarrow> string \<Rightarrow> crawler \<Rightarrow> crawler + crawler" where
  "classify U currentUrl depth absoluteUrl c =
     (let c1 = c\<lparr>checkedLinks := insert absoluteUrl (checkedLinks c)\<rparr>
      in case U absoluteUrl None of
           None \<Rightarrow> Inl c1
         | Some parsed \<Rightarrow>
             if \<not> is_array (heap c1) (allowedDomains c1) then Inl c1
             else if isAllowed (array_at (heap c1) (allowedDomains c1)) (hostname parsed)
             then
               (let inQueue = list_ex (\<lambda>item. fst item = absoluteUrl) (queue c1)
                in if absoluteUrl \<notin> visited c1 \<and> \<not> inQueue
                   then Inr (c1\<lparr>queue := queue c1 @ [(absoluteUrl, depth + 1)]\<rparr>)
                   else Inr c1)
             else
               Inr (processExternalQueue
                      (c1\<lparr>externalCheckQueue :=
                            externalCheckQueue c1 @ [(absoluteUrl, currentUrl)]\<rparr>)))"

definition process_link ::
    "new_URL \<Rightarrow> string \<Rightarrow> int \<Rightarrow> string option \<Rightarrow> crawler \<Rightarrow> crawler + crawler" where
  "process_link U currentUrl depth href c =
     (case href of
        None \<Rightarrow> Inr c
      | Some h \<Rightarrow>
          if h = [] then Inr c
          else
            (case U h (Some currentUrl) of
               None \<Rightarrow> Inr c
             | Some resolved \<Rightarrow>
                 (case normalizeUrl U (toString resolved) of
                    None \<Rightarrow> Inr c
                  | Some absoluteUrl \<Rightarrow>
                      if absoluteUrl = [] \<or> \<not> startsWith absoluteUrl ''http'' then Inr c
                      else if absoluteUrl \<in> checkedLinks c then Inr c
                      else classify U currentUrl depth absoluteUrl c)))"

fun each_link ::
    "new_URL \<Rightarrow> string \<Rightarrow> int \<Rightarrow> string option list \<Rightarrow> crawler \<Rightarrow> crawler + crawler" where
  "each_link U currentUrl depth [] c = Inr c"
| "each_link U currentUrl depth (href # hrefs) c =
     (case process_link U currentUrl depth href c of
        Inl c' \<Rightarrow> Inl c'
      | Inr c' \<Rightarrow> each_link U currentUrl depth hrefs c')"

subsection \<open>The main control flow (lines 64-170)\<close>

text \<open>Lines 168-169.\<close>

definition finish :: "crawler \<Rightarrow> crawler" where
  "finish c = (emit Log_done (emit (Finished (brokenLinks c)) c))\<lparr>pc := Returned\<rparr>"

text \<open>
  The head of the second loop (lines 162-164): it either suspends in the 500 ms timer or
  falls through to the end of \<^verbatim>\<open>start\<close>.
\<close>

definition drain_wait :: "crawler \<Rightarrow> crawler" where
  "drain_wait c =
     (if (activeRequests c > 0 \<or> externalCheckQueue c \<noteq> []) \<and> isRunning c
      then (effect (Sleep 500) c)\<lparr>pc := Await_poll\<rparr>
      else finish c)"

text \<open>
  The first loop (lines 73-90).  \<open>main_cond\<close> is its condition; \<open>begin_page\<close> is the
  iteration from line 77 up to the \<^verbatim>\<open>await\<close> of the page request at line 90;
  \<open>main_loop\<close> is the head of the loop, where the \<^verbatim>\<open>continue\<close> of line 76 comes
  back to.
\<close>

definition main_cond :: "crawler \<Rightarrow> bool" where
  "main_cond c \<longleftrightarrow>
     queue c \<noteq> [] \<and> isRunning c \<and> of_int (crawledCount c) < maxPages c"

definition begin_page :: "string \<Rightarrow> int \<Rightarrow> crawler \<Rightarrow> crawler" where
  "begin_page currentUrl depth c =
     (let c1 = c\<lparr>visited := insert currentUrl (visited c)\<rparr>;
          c2 = c1\<lparr>crawledCount := crawledCount c1 + 1\<rparr>;
          c3 = emit (Progress currentUrl (crawledCount c2) (length (queue c2)) depth) c2;
          c4 = emit (Log_crawling depth currentUrl) c3
      in (effect (Page_get currentUrl) c4)\<lparr>pc := Await_page currentUrl depth\<rparr>)"

definition dequeue :: "crawler \<Rightarrow> crawler" where
  "dequeue c = c\<lparr>queue := tl (queue c)\<rparr>"

function main_loop :: "crawler \<Rightarrow> crawler" where
  "main_loop c =
     (if main_cond c
      then
        (if fst (hd (queue c)) \<in> visited c then main_loop (dequeue c)
         else begin_page (fst (hd (queue c))) (snd (hd (queue c))) (dequeue c))
      else drain_wait c)"
  by pat_completeness auto
termination
  by (relation "measure (\<lambda>c. length (queue c))") (auto simp: main_cond_def dequeue_def)

text \<open>The \<^verbatim>\<open>catch\<close> block of lines 152-155.\<close>

definition fetch_error :: "string \<Rightarrow> crawler \<Rightarrow> crawler" where
  "fetch_error currentUrl c = reportBroken currentUrl ErrorMarker ''seed'' (emit (Error_fetch currentUrl) c)"

text \<open>Line 158.\<close>

definition politeness_delay :: "crawler \<Rightarrow> crawler" where
  "politeness_delay c = (effect (Sleep 500) c)\<lparr>pc := Await_delay\<rparr>"

text \<open>Lines 96-158, once the page request of line 90 has come back.\<close>

definition after_page :: "new_URL \<Rightarrow> string \<Rightarrow> int \<Rightarrow> page_result \<Rightarrow> crawler \<Rightarrow> crawler" where
  "after_page U currentUrl depth r c =
     (case r of
        Page_failed \<Rightarrow> politeness_delay (fetch_error currentUrl c)
      | Page_response st content_type hrefs \<Rightarrow>
          if st \<ge> 400 then main_loop (reportBroken currentUrl (Code st) ''seed'' c)
          else if \<not> includes_str (case content_type of None \<Rightarrow> [] | Some t \<Rightarrow> t) ''text/html''
          then main_loop c
          else if of_int depth \<ge> maxDepth c then main_loop c
          else
            (case each_link U currentUrl depth hrefs (effect (Load_html currentUrl depth) c) of
               Inl c' \<Rightarrow> politeness_delay (fetch_error currentUrl c')
             | Inr c' \<Rightarrow> politeness_delay c'))"

text \<open>Lines 64-71 and into the first loop.\<close>

definition start :: "crawler \<Rightarrow> crawler" where
  "start c =
     (case startUrl c of
        None \<Rightarrow> (emit Error_invalid_start c)\<lparr>pc := Returned\<rparr>
      | Some s \<Rightarrow>
          if s = [] then (emit Error_invalid_start c)\<lparr>pc := Returned\<rparr>
          else main_loop (emit (Log_start s (maxDepth c)) (c\<lparr>isRunning := True\<rparr>)))"

subsection \<open>The event loop\<close>

text \<open>
  What can happen next: the page request comes back, a timer fires, a request of a check
  in flight comes back, the \<^verbatim>\<open>finally\<close> callback of a settled check runs, the
  \<^verbatim>\<open>stop-crawl\<close> handler (lines 254-257) runs, or the crawler is abandoned: the socket
  disconnects (lines 259-262) or another crawl is started on it (lines 237-239), which
  clears the flag and emits nothing for this crawler.  An event that nothing waits for
  gives \<open>None\<close>.
\<close>

datatype action =
    Page_done page_result
  | Delay_done
  | Poll_done
  | Head_done nat check_result
  | Get_done nat check_result
  | Finally_done nat
  | Stop_crawl
  | Abandon

definition phase_at :: "crawler \<Rightarrow> nat \<Rightarrow> phase option" where
  "phase_at c i =
     (if i < length (inflight c) then Some (snd (snd (inflight c ! i))) else None)"

fun step :: "new_URL \<Rightarrow> action \<Rightarrow> crawler \<Rightarrow> crawler option" where
  "step U (Page_done r) c =
     (case pc c of
        Await_page currentUrl depth \<Rightarrow> Some (after_page U currentUrl depth r c)
      | _ \<Rightarrow> None)"
| "step U Delay_done c = (if pc c = Await_delay then Some (main_loop c) else None)"
| "step U Poll_done c =
     (if pc c = Await_poll then Some (drain_wait (processExternalQueue c)) else None)"
| "step U (Head_done i r) c =
     (if phase_at c i = Some Await_head then Some (checkExternalLink_after_head i r c) else None)"
| "step U (Get_done i r) c =
     (if phase_at c i = Some Await_get then Some (checkExternalLink_after_get i r c) else None)"
| "step U (Finally_done i) c =
     (if phase_at c i = Some Settled then Some (check_finally i c) else None)"
| "step U Stop_crawl c = Some (emit Log_stopped (c\<lparr>isRunning := False\<rparr>))"
| "step U Abandon c = Some (c\<lparr>isRunning := False\<rparr>)"

fun run :: "new_URL \<Rightarrow> action list \<Rightarrow> crawler \<Rightarrow> crawler option" where
  "run U [] c = Some c"
| "run U (a # as) c = (case step U a c of None \<Rightarrow> None | Some c' \<Rightarrow> run U as c')"

text \<open>A session: \<^verbatim>\<open>new Crawler(url, socket, options)\<close> followed by \<^verbatim>\<open>start()\<close>.\<close>

definition session :: "new_URL \<Rightarrow> string \<Rightarrow> nat \<Rightarrow> obj list \<Rightarrow> crawler" where
  "session U url_arg options_ref h = start (constructor U url_arg options_ref h)"

subsection \<open>Reading the trace\<close>

text \<open>
  The frontier items of the \<^verbatim>\<open>progress\<close> events, the payloads of the \<^verbatim>\<open>finished\<close>
  events, the frontier items handed to the HTML parser and the URLs of the page requests,
  each in the order of the trace.
\<close>

fun progress_of :: "effect \<Rightarrow> (string \<times> int) list" where
  "progress_of (Emit (Progress u n q d)) = [(u, d)]"
| "progress_of _ = []"

fun finished_of :: "effect \<Rightarrow> broken_link list list" where
  "finished_of (Emit (Finished bl)) = [bl]"
| "finished_of _ = []"

fun loaded_of :: "effect \<Rightarrow> (string \<times> int) list" where
  "loaded_of (Load_html u d) = [(u, d)]"
| "loaded_of _ = []"

fun page_get_of :: "effect \<Rightarrow> string list" where
  "page_get_of (Page_get u) = [u]"
| "page_get_of _ = []"

definition progress_items :: "effect list \<Rightarrow> (string \<times> int) list" where
  "progress_items t = concat (map progress_of t)"

definition progress_urls :: "effect list \<Rightarrow> string list" where
  "progress_urls t = map fst (progress_items t)"

definition finished_payloads :: "effect list \<Rightarrow> broken_link list list" where
  "finished_payloads t = concat (map finished_of t)"

definition loaded_items :: "effect list \<Rightarrow> (string \<times> int) list" where
  "loaded_items t = concat (map loaded_of t)"

definition page_gets :: "effect list \<Rightarrow> string list" where
  "page_gets t = concat (map page_get_of t)"

subsection \<open>A parser for the examples\<close>

text \<open>
  The examples need URLs parsed.  \<open>demo_URL\<close> reads absolute URLs of the shapes
  \<^verbatim>\<open>scheme://host/path#fragment\<close> and \<^verbatim>\<open>scheme:rest#fragment\<close> and, against a base,
  references that begin with a slash; it rejects everything else.  On the lower-case
  URLs of the examples it gives the components the platform's parser gives.
\<close>

definition parse_absolute :: "string \<Rightarrow> url option" where
  "parse_absolute s =
     (let sch = takeWhile (\<lambda>x. x \<noteq> CHR '':'') s;
          rest = dropWhile (\<lambda>x. x \<noteq> CHR '':'') s
      in if sch = [] \<or> rest = [] then None
         else
           (let body = takeWhile (\<lambda>x. x \<noteq> CHR ''#'') (tl rest);
                frag = dropWhile (\<lambda>x. x \<noteq> CHR ''#'') (tl rest);
                fragment = (if frag = [] then None else Some (tl frag))
            in if startsWith body ''//''
               then
                 (let host = takeWhile (\<lambda>x. x \<noteq> CHR ''/'') (drop 2 body);
                      path = dropWhile (\<lambda>x. x \<noteq> CHR ''/'') (drop 2 body)
                  in if host = [] \<or> path = [] then None
                     else Some \<lparr>url_scheme = sch, url_credentials = [], url_host = Some host,
                                url_port = [], url_path = path, url_query = None,
                                url_fragment = fragment\<rparr>)
               else Some \<lparr>url_scheme = sch, url_credentials = [], url_host = None,
                          url_port = [], url_path = body, url_query = None,
                          url_fragment = fragment\<rparr>))"

definition demo_URL :: new_URL where
  "demo_URL s base =
     (case parse_absolute s of
        Some p \<Rightarrow> Some p
      | None \<Rightarrow>
          (case base of
             None \<Rightarrow> None
           | Some b \<Rightarrow>
               (case parse_absolute b of
                  None \<Rightarrow> None
                | Some bp \<Rightarrow>
                    if startsWith s ''/''
                    then Some (bp\<lparr>url_path := takeWhile (\<lambda>x. x \<noteq> CHR ''#'') s,
                                  url_fragment :=
                                    (let frag = dropWhile (\<lambda>x. x \<noteq> CHR ''#'') s
                                     in if frag = [] then None else Some (tl frag))\<rparr>)
                    else None)))"

text \<open>
  A caller's heap: an options object with a budget of 10 pages, a depth limit of 2 and a
  reference to an empty array of allowed domains.  A page with six anchors.
\<close>

definition demo_heap :: "obj list" where
  "demo_heap =
     [Opts \<lparr>opt_maxPages = Some 10, opt_maxDepth = Some 2, opt_allowedDomains = Some 1\<rparr>,
      Arr []]"

definition demo_page :: page_result where
  "demo_page =
     Page_response 200 (Some ''text/html; charset=utf-8'')
       [Some ''/x'', None, Some ''http://b.example/y#top'', Some ''mailto:me@a.example'',
        Some ''/x#frag'', Some ''/z'']"

text \<open>A page with links to six other sites.\<close>

definition demo_busy_page :: page_result where
  "demo_busy_page =
     Page_response 200 (Some ''text/html'')
       [Some ''http://b1.example/'', Some ''http://b2.example/'', Some ''http://b3.example/'',
        Some ''http://b4.example/'', Some ''http://b5.example/'', Some ''http://b6.example/'']"

definition demo_session :: crawler where
  "demo_session = session demo_URL ''http://a.example/'' 0 demo_heap"

text \<open>
  A run of the session: the seed page comes back with its anchors; after the delay the
  page \<^verbatim>\<open>/x\<close> comes back with one anchor; after the delay the page \<^verbatim>\<open>/z\<close> comes back
  with status 404; the page \<^verbatim>\<open>/w\<close>, at depth 2, comes back with one anchor.
\<close>

definition demo_actions :: "action list" where
  "demo_actions =
     [Page_done demo_page,
      Delay_done,
      Page_done (Page_response 200 (Some ''text/html'') [Some ''/w'']),
      Delay_done,
      Page_done (Page_response 404 None []),
      Page_done (Page_response 200 (Some ''text/html'') [Some ''/v''])]"

definition demo_final :: crawler where
  "demo_final = the (run demo_URL demo_actions demo_session)"

text \<open>
  The same session with other limits in the options object, and the run of the example
  without its last step.
\<close>

definition demo_limits :: "rat \<Rightarrow> rat \<Rightarrow> crawler" where
  "demo_limits pages depth =
     session demo_URL ''http://a.example/'' 0
       [Opts \<lparr>opt_maxPages = Some pages, opt_maxDepth = Some depth, opt_allowedDomains = Some 1\<rparr>,
        Arr []]"

definition demo_limits_final :: "rat \<Rightarrow> rat \<Rightarrow> crawler" where
  "demo_limits_final pages depth =
     the (run demo_URL (butlast demo_actions) (demo_limits pages depth))"

text \<open>The state of the session once the seed page has come back.\<close>

definition demo_checking :: crawler where
  "demo_checking = the (run demo_URL [Page_done demo_page] demo_session)"

subsection \<open>Reports\<close>

text \<open>
  What a verification reports for the response that settles it: nothing for a status below
  400, the status for a status of 400 or more, the error marker for a request that failed.
  \<open>reports c c' items\<close>: from \<open>c\<close> to \<open>c'\<close> exactly \<open>items\<close> were reported, each appended to
  the list of broken links and emitted, and nothing else was done to the outside world.
\<close>

definition verdict :: "string \<Rightarrow> string \<Rightarrow> check_result \<Rightarrow> broken_link list" where
  "verdict u src r =
     (case r of
        Check_failed \<Rightarrow> [\<lparr>bl_url = u, bl_status = ErrorMarker, bl_source = src\<rparr>]
      | Check_response st \<Rightarrow>
          if 400 \<le> st then [\<lparr>bl_url = u, bl_status = Code st, bl_source = src\<rparr>] else [])"

definition reports :: "crawler \<Rightarrow> crawler \<Rightarrow> broken_link list \<Rightarrow> bool" where
  "reports c c' items \<longleftrightarrow>
     brokenLinks c' = brokenLinks c @ items \<and>
     trace c' = trace c @ map (\<lambda>item. Emit (Broken_link item)) items"

subsection \<open>Invariants\<close>

text \<open>The state a call of the anchor callback ends in, thrown or not.\<close>

definition state_of :: "crawler + crawler \<Rightarrow> crawler" where
  "state_of r = (case r of Inl c \<Rightarrow> c | Inr c \<Rightarrow> c)"

text \<open>
  The counter of active requests counts the calls of \<^verbatim>\<open>checkExternalLink\<close> in flight
  and stays within the ceiling.
\<close>

definition conc_inv :: "crawler \<Rightarrow> bool" where
  "conc_inv c \<longleftrightarrow>
     maxConcurrency c = 5 \<and> activeRequests c = int (length (inflight c)) \<and>
     activeRequests c \<le> 5"

text \<open>The URLs of the progress events are distinct and all marked visited.\<close>

definition visit_inv :: "crawler \<Rightarrow> bool" where
  "visit_inv c \<longleftrightarrow>
     distinct (progress_urls (trace c)) \<and> set (progress_urls (trace c)) \<subseteq> visited c"

text \<open>
  The page counter counts the page requests, each of which follows a progress event, and
  stays within the budget rounded up to a whole number of pages.
\<close>

definition budget_inv :: "crawler \<Rightarrow> bool" where
  "budget_inv c \<longleftrightarrow>
     crawledCount c = int (length (page_gets (trace c))) \<and>
     page_gets (trace c) = progress_urls (trace c) \<and>
     crawledCount c \<le> max 0 \<lceil>maxPages c\<rceil>"


text \<open>
  The URLs waiting in the external check queue or being verified.
\<close>

definition pending_urls :: "crawler \<Rightarrow> string set" where
  "pending_urls c = fst ` set (externalCheckQueue c) \<union> fst ` set (inflight c)"

text \<open>
  The events that resume the main control flow, and how many of them at most the flow
  awaits once the running flag is cleared.
\<close>

fun main_action :: "action \<Rightarrow> bool" where
  "main_action (Page_done r) = True"
| "main_action Delay_done = True"
| "main_action Poll_done = True"
| "main_action _ = False"

fun rank :: "pc \<Rightarrow> nat" where
  "rank Not_started = 3"
| "rank (Await_page u d) = 2"
| "rank Await_delay = 1"
| "rank Await_poll = 1"
| "rank Returned = 0"

text \<open>
  No \<^verbatim>\<open>finished\<close> event before \<^verbatim>\<open>start\<close> has returned.
\<close>

definition fin_inv :: "crawler \<Rightarrow> bool" where
  "fin_inv c \<longleftrightarrow>
     pc c \<noteq> Not_started \<and> (pc c \<noteq> Returned \<longrightarrow> finished_payloads (trace c) = [])"

text \<open>
  The states \<open>c\<close> after a stop in the state \<open>c0\<close>: the flag stays cleared, no progress
  event is added, the list of broken links only grows, and \<^verbatim>\<open>finished\<close> has been emitted
  exactly when \<^verbatim>\<open>start\<close> has returned, once, with the list as it was at that moment.
\<close>

definition stopped_inv :: "crawler \<Rightarrow> crawler \<Rightarrow> bool" where
  "stopped_inv c0 c \<longleftrightarrow>
     \<not> isRunning c \<and> pc c \<noteq> Not_started \<and>
     progress_items (trace c) = progress_items (trace c0) \<and>
     prefix (brokenLinks c0) (brokenLinks c) \<and>
     (if pc c = Returned
      then \<exists>bl. finished_payloads (trace c) = [bl] \<and> prefix (brokenLinks c0) bl \<and>
                prefix bl (brokenLinks c)
      else finished_payloads (trace c) = [])"

section \<open>Properties\<close>

declare drain.simps [simp del] main_loop.simps [simp del]

subsection \<open>Reading a trace that grows\<close>

lemma items_append [simp]:
  "progress_items (t @ s) = progress_items t @ progress_items s"
  "finished_payloads (t @ s) = finished_payloads t @ finished_payloads s"
  "loaded_items (t @ s) = loaded_items t @ loaded_items s"
  "page_gets (t @ s) = page_gets t @ page_gets s"
  "progress_urls (t @ s) = progress_urls t @ progress_urls s"
  by (simp_all add: progress_items_def finished_payloads_def loaded_items_def page_gets_def
      progress_urls_def)

lemma items_Cons [simp]:
  "progress_items (e # t) = progress_of e @ progress_items t"
  "finished_payloads (e # t) = finished_of e @ finished_payloads t"
  "loaded_items (e # t) = loaded_of e @ loaded_items t"
  "page_gets (e # t) = page_get_of e @ page_gets t"
  "progress_urls (e # t) = map fst (progress_of e) @ progress_urls t"
  "progress_items [] = []"
  "finished_payloads [] = []"
  "loaded_items [] = []"
  "page_gets [] = []"
  "progress_urls [] = []"
  by (simp_all add: progress_items_def finished_payloads_def loaded_items_def page_gets_def
      progress_urls_def)

subsection \<open>What each piece of code leaves alone\<close>

lemma effect_fields [simp]:
  "startUrl (effect e c) = startUrl c"
  "visited (effect e c) = visited c"
  "checkedLinks (effect e c) = checkedLinks c"
  "queue (effect e c) = queue c"
  "brokenLinks (effect e c) = brokenLinks c"
  "isRunning (effect e c) = isRunning c"
  "maxPages (effect e c) = maxPages c"
  "maxDepth (effect e c) = maxDepth c"
  "allowedDomains (effect e c) = allowedDomains c"
  "crawledCount (effect e c) = crawledCount c"
  "activeRequests (effect e c) = activeRequests c"
  "maxConcurrency (effect e c) = maxConcurrency c"
  "externalCheckQueue (effect e c) = externalCheckQueue c"
  "isProcessingExternal (effect e c) = isProcessingExternal c"
  "pc (effect e c) = pc c"
  "inflight (effect e c) = inflight c"
  "heap (effect e c) = heap c"
  "trace (effect e c) = trace c @ [e]"
  by (simp_all add: effect_def)

lemma reportBroken_fields [simp]:
  "startUrl (reportBroken u st src c) = startUrl c"
  "visited (reportBroken u st src c) = visited c"
  "checkedLinks (reportBroken u st src c) = checkedLinks c"
  "queue (reportBroken u st src c) = queue c"
  "isRunning (reportBroken u st src c) = isRunning c"
  "maxPages (reportBroken u st src c) = maxPages c"
  "maxDepth (reportBroken u st src c) = maxDepth c"
  "allowedDomains (reportBroken u st src c) = allowedDomains c"
  "crawledCount (reportBroken u st src c) = crawledCount c"
  "activeRequests (reportBroken u st src c) = activeRequests c"
  "maxConcurrency (reportBroken u st src c) = maxConcurrency c"
  "externalCheckQueue (reportBroken u st src c) = externalCheckQueue c"
  "isProcessingExternal (reportBroken u st src c) = isProcessingExternal c"
  "pc (reportBroken u st src c) = pc c"
  "inflight (reportBroken u st src c) = inflight c"
  "heap (reportBroken u st src c) = heap c"
  "brokenLinks (reportBroken u st src c) =
     brokenLinks c @ [\<lparr>bl_url = u, bl_status = st, bl_source = src\<rparr>]"
  "trace (reportBroken u st src c) =
     trace c @ [Emit (Broken_link \<lparr>bl_url = u, bl_status = st, bl_source = src\<rparr>)]"
  by (simp_all add: reportBroken_def emit_def Let_def)

lemma drain_unfold:
  "drain_cond c \<Longrightarrow> drain c = drain (drain_body c)"
  "\<not> drain_cond c \<Longrightarrow> drain c = c"
  by (simp_all add: drain.simps [of c])

lemma drain_fields [simp]:
  "startUrl (drain c) = startUrl c"
  "visited (drain c) = visited c"
  "checkedLinks (drain c) = checkedLinks c"
  "queue (drain c) = queue c"
  "brokenLinks (drain c) = brokenLinks c"
  "isRunning (drain c) = isRunning c"
  "maxPages (drain c) = maxPages c"
  "maxDepth (drain c) = maxDepth c"
  "allowedDomains (drain c) = allowedDomains c"
  "crawledCount (drain c) = crawledCount c"
  "maxConcurrency (drain c) = maxConcurrency c"
  "isProcessingExternal (drain c) = isProcessingExternal c"
  "pc (drain c) = pc c"
  "heap (drain c) = heap c"
  "progress_items (trace (drain c)) = progress_items (trace c)"
  "finished_payloads (trace (drain c)) = finished_payloads (trace c)"
  "loaded_items (trace (drain c)) = loaded_items (trace c)"
  "page_gets (trace (drain c)) = page_gets (trace c)"
  by (induction c rule: drain.induct;
      case_tac "drain_cond c"; simp add: drain_unfold drain_body_def Let_def)+

lemma processExternalQueue_fields [simp]:
  "startUrl (processExternalQueue c) = startUrl c"
  "visited (processExternalQueue c) = visited c"
  "checkedLinks (processExternalQueue c) = checkedLinks c"
  "queue (processExternalQueue c) = queue c"
  "brokenLinks (processExternalQueue c) = brokenLinks c"
  "isRunning (processExternalQueue c) = isRunning c"
  "maxPages (processExternalQueue c) = maxPages c"
  "maxDepth (processExternalQueue c) = maxDepth c"
  "allowedDomains (processExternalQueue c) = allowedDomains c"
  "crawledCount (processExternalQueue c) = crawledCount c"
  "maxConcurrency (processExternalQueue c) = maxConcurrency c"
  "isProcessingExternal (processExternalQueue c) = isProcessingExternal c"
  "pc (processExternalQueue c) = pc c"
  "heap (processExternalQueue c) = heap c"
  "progress_items (trace (processExternalQueue c)) = progress_items (trace c)"
  "finished_payloads (trace (processExternalQueue c)) = finished_payloads (trace c)"
  "loaded_items (trace (processExternalQueue c)) = loaded_items (trace c)"
  "page_gets (trace (processExternalQueue c)) = page_gets (trace c)"
  by (simp_all add: processExternalQueue_def)

lemma state_of_simps [simp]: "state_of (Inl c) = c" "state_of (Inr c) = c"
  by (simp_all add: state_of_def)

lemma settle_fields [simp]:
  "startUrl (settle i c) = startUrl c"
  "visited (settle i c) = visited c"
  "checkedLinks (settle i c) = checkedLinks c"
  "queue (settle i c) = queue c"
  "brokenLinks (settle i c) = brokenLinks c"
  "isRunning (settle i c) = isRunning c"
  "maxPages (settle i c) = maxPages c"
  "maxDepth (settle i c) = maxDepth c"
  "allowedDomains (settle i c) = allowedDomains c"
  "crawledCount (settle i c) = crawledCount c"
  "activeRequests (settle i c) = activeRequests c"
  "maxConcurrency (settle i c) = maxConcurrency c"
  "externalCheckQueue (settle i c) = externalCheckQueue c"
  "isProcessingExternal (settle i c) = isProcessingExternal c"
  "pc (settle i c) = pc c"
  "heap (settle i c) = heap c"
  "trace (settle i c) = trace c"
  "length (inflight (settle i c)) = length (inflight c)"
  by (simp_all add: settle_def case_prod_beta)

lemma report_status_fields [simp]:
  "startUrl (report_status u src st c) = startUrl c"
  "visited (report_status u src st c) = visited c"
  "checkedLinks (report_status u src st c) = checkedLinks c"
  "queue (report_status u src st c) = queue c"
  "isRunning (report_status u src st c) = isRunning c"
  "maxPages (report_status u src st c) = maxPages c"
  "maxDepth (report_status u src st c) = maxDepth c"
  "allowedDomains (report_status u src st c) = allowedDomains c"
  "crawledCount (report_status u src st c) = crawledCount c"
  "activeRequests (report_status u src st c) = activeRequests c"
  "maxConcurrency (report_status u src st c) = maxConcurrency c"
  "externalCheckQueue (report_status u src st c) = externalCheckQueue c"
  "isProcessingExternal (report_status u src st c) = isProcessingExternal c"
  "pc (report_status u src st c) = pc c"
  "inflight (report_status u src st c) = inflight c"
  "heap (report_status u src st c) = heap c"
  "progress_items (trace (report_status u src st c)) = progress_items (trace c)"
  "finished_payloads (trace (report_status u src st c)) = finished_payloads (trace c)"
  "loaded_items (trace (report_status u src st c)) = loaded_items (trace c)"
  "page_gets (trace (report_status u src st c)) = page_gets (trace c)"
  by (simp_all add: report_status_def)

lemma after_head_fields [simp]:
  "startUrl (checkExternalLink_after_head i r c) = startUrl c"
  "visited (checkExternalLink_after_head i r c) = visited c"
  "checkedLinks (checkExternalLink_after_head i r c) = checkedLinks c"
  "queue (checkExternalLink_after_head i r c) = queue c"
  "isRunning (checkExternalLink_after_head i r c) = isRunning c"
  "maxPages (checkExternalLink_after_head i r c) = maxPages c"
  "maxDepth (checkExternalLink_after_head i r c) = maxDepth c"
  "allowedDomains (checkExternalLink_after_head i r c) = allowedDomains c"
  "crawledCount (checkExternalLink_after_head i r c) = crawledCount c"
  "activeRequests (checkExternalLink_after_head i r c) = activeRequests c"
  "maxConcurrency (checkExternalLink_after_head i r c) = maxConcurrency c"
  "externalCheckQueue (checkExternalLink_after_head i r c) = externalCheckQueue c"
  "isProcessingExternal (checkExternalLink_after_head i r c) = isProcessingExternal c"
  "pc (checkExternalLink_after_head i r c) = pc c"
  "heap (checkExternalLink_after_head i r c) = heap c"
  "length (inflight (checkExternalLink_after_head i r c)) = length (inflight c)"
  "progress_items (trace (checkExternalLink_after_head i r c)) = progress_items (trace c)"
  "finished_payloads (trace (checkExternalLink_after_head i r c)) = finished_payloads (trace c)"
  "loaded_items (trace (checkExternalLink_after_head i r c)) = loaded_items (trace c)"
  "page_gets (trace (checkExternalLink_after_head i r c)) = page_gets (trace c)"
  by (simp_all add: checkExternalLink_after_head_def case_prod_beta split: check_result.split)

lemma after_get_fields [simp]:
  "startUrl (checkExternalLink_after_get i r c) = startUrl c"
  "visited (checkExternalLink_after_get i r c) = visited c"
  "checkedLinks (checkExternalLink_after_get i r c) = checkedLinks c"
  "queue (checkExternalLink_after_get i r c) = queue c"
  "isRunning (checkExternalLink_after_get i r c) = isRunning c"
  "maxPages (checkExternalLink_after_get i r c) = maxPages c"
  "maxDepth (checkExternalLink_after_get i r c) = maxDepth c"
  "allowedDomains (checkExternalLink_after_get i r c) = allowedDomains c"
  "crawledCount (checkExternalLink_after_get i r c) = crawledCount c"
  "activeRequests (checkExternalLink_after_get i r c) = activeRequests c"
  "maxConcurrency (checkExternalLink_after_get i r c) = maxConcurrency c"
  "externalCheckQueue (checkExternalLink_after_get i r c) = externalCheckQueue c"
  "isProcessingExternal (checkExternalLink_after_get i r c) = isProcessingExternal c"
  "pc (checkExternalLink_after_get i r c) = pc c"
  "heap (checkExternalLink_after_get i r c) = heap c"
  "length (inflight (checkExternalLink_after_get i r c)) = length (inflight c)"
  "progress_items (trace (checkExternalLink_after_get i r c)) = progress_items (trace c)"
  "finished_payloads (trace (checkExternalLink_after_get i r c)) = finished_payloads (trace c)"
  "loaded_items (trace (checkExternalLink_after_get i r c)) = loaded_items (trace c)"
  "page_gets (trace (checkExternalLink_after_get i r c)) = page_gets (trace c)"
  by (simp_all add: checkExternalLink_after_get_def case_prod_beta split: check_result.split)

lemma check_finally_fields [simp]:
  "startUrl (check_finally i c) = startUrl c"
  "visited (check_finally i c) = visited c"
  "checkedLinks (check_finally i c) = checkedLinks c"
  "queue (check_finally i c) = queue c"
  "brokenLinks (check_finally i c) = brokenLinks c"
  "isRunning (check_finally i c) = isRunning c"
  "maxPages (check_finally i c) = maxPages c"
  "maxDepth (check_finally i c) = maxDepth c"
  "allowedDomains (check_finally i c) = allowedDomains c"
  "crawledCount (check_finally i c) = crawledCount c"
  "maxConcurrency (check_finally i c) = maxConcurrency c"
  "isProcessingExternal (check_finally i c) = isProcessingExternal c"
  "pc (check_finally i c) = pc c"
  "heap (check_finally i c) = heap c"
  "progress_items (trace (check_finally i c)) = progress_items (trace c)"
  "finished_payloads (trace (check_finally i c)) = finished_payloads (trace c)"
  "loaded_items (trace (check_finally i c)) = loaded_items (trace c)"
  "page_gets (trace (check_finally i c)) = page_gets (trace c)"
  by (simp_all add: check_finally_def)

lemma drain_conc: "conc_inv c \<Longrightarrow> conc_inv (drain c)"
  by (induction c rule: drain.induct; case_tac "drain_cond c")
     (simp_all add: drain_unfold drain_body_def drain_cond_def conc_inv_def Let_def)

lemma processExternalQueue_conc: "conc_inv c \<Longrightarrow> conc_inv (processExternalQueue c)"
  using drain_conc [of "c\<lparr>isProcessingExternal := True\<rparr>"]
  by (simp add: processExternalQueue_def conc_inv_def)

lemma check_finally_conc:
  "conc_inv c \<Longrightarrow> i < length (inflight c) \<Longrightarrow> conc_inv (check_finally i c)"
  unfolding check_finally_def
  by (rule processExternalQueue_conc) (auto simp: conc_inv_def)

lemma classify_fields [simp]:
  "startUrl (state_of (classify U cu d a c)) = startUrl c"
  "visited (state_of (classify U cu d a c)) = visited c"
  "brokenLinks (state_of (classify U cu d a c)) = brokenLinks c"
  "isRunning (state_of (classify U cu d a c)) = isRunning c"
  "maxPages (state_of (classify U cu d a c)) = maxPages c"
  "maxDepth (state_of (classify U cu d a c)) = maxDepth c"
  "allowedDomains (state_of (classify U cu d a c)) = allowedDomains c"
  "crawledCount (state_of (classify U cu d a c)) = crawledCount c"
  "maxConcurrency (state_of (classify U cu d a c)) = maxConcurrency c"
  "isProcessingExternal (state_of (classify U cu d a c)) = isProcessingExternal c"
  "pc (state_of (classify U cu d a c)) = pc c"
  "heap (state_of (classify U cu d a c)) = heap c"
  "progress_items (trace (state_of (classify U cu d a c))) = progress_items (trace c)"
  "finished_payloads (trace (state_of (classify U cu d a c))) = finished_payloads (trace c)"
  "loaded_items (trace (state_of (classify U cu d a c))) = loaded_items (trace c)"
  "page_gets (trace (state_of (classify U cu d a c))) = page_gets (trace c)"
  by (simp_all add: classify_def Let_def split: option.split)

lemma process_link_fields [simp]:
  "startUrl (state_of (process_link U cu d href c)) = startUrl c"
  "visited (state_of (process_link U cu d href c)) = visited c"
  "brokenLinks (state_of (process_link U cu d href c)) = brokenLinks c"
  "isRunning (state_of (process_link U cu d href c)) = isRunning c"
  "maxPages (state_of (process_link U cu d href c)) = maxPages c"
  "maxDepth (state_of (process_link U cu d href c)) = maxDepth c"
  "allowedDomains (state_of (process_link U cu d href c)) = allowedDomains c"
  "crawledCount (state_of (process_link U cu d href c)) = crawledCount c"
  "maxConcurrency (state_of (process_link U cu d href c)) = maxConcurrency c"
  "isProcessingExternal (state_of (process_link U cu d href c)) = isProcessingExternal c"
  "pc (state_of (process_link U cu d href c)) = pc c"
  "heap (state_of (process_link U cu d href c)) = heap c"
  "progress_items (trace (state_of (process_link U cu d href c))) = progress_items (trace c)"
  "finished_payloads (trace (state_of (process_link U cu d href c))) = finished_payloads (trace c)"
  "loaded_items (trace (state_of (process_link U cu d href c))) = loaded_items (trace c)"
  "page_gets (trace (state_of (process_link U cu d href c))) = page_gets (trace c)"
  by (simp_all add: process_link_def split: option.split)

lemma sum_case_state:
  "(case r of Inl c' \<Rightarrow> f c' | Inr c' \<Rightarrow> g c') =
     (if isl r then f (state_of r) else g (state_of r))"
  by (cases r) simp_all

lemma state_of_each_link_Cons:
  "state_of (each_link U cu d (href # hrefs) c) =
     (if isl (process_link U cu d href c) then state_of (process_link U cu d href c)
      else state_of (each_link U cu d hrefs (state_of (process_link U cu d href c))))"
  by (cases "process_link U cu d href c") simp_all

lemma each_link_fields [simp]:
  "startUrl (state_of (each_link U cu d hrefs c)) = startUrl c"
  "visited (state_of (each_link U cu d hrefs c)) = visited c"
  "brokenLinks (state_of (each_link U cu d hrefs c)) = brokenLinks c"
  "isRunning (state_of (each_link U cu d hrefs c)) = isRunning c"
  "maxPages (state_of (each_link U cu d hrefs c)) = maxPages c"
  "maxDepth (state_of (each_link U cu d hrefs c)) = maxDepth c"
  "allowedDomains (state_of (each_link U cu d hrefs c)) = allowedDomains c"
  "crawledCount (state_of (each_link U cu d hrefs c)) = crawledCount c"
  "maxConcurrency (state_of (each_link U cu d hrefs c)) = maxConcurrency c"
  "isProcessingExternal (state_of (each_link U cu d hrefs c)) = isProcessingExternal c"
  "pc (state_of (each_link U cu d hrefs c)) = pc c"
  "heap (state_of (each_link U cu d hrefs c)) = heap c"
  "progress_items (trace (state_of (each_link U cu d hrefs c))) = progress_items (trace c)"
  "finished_payloads (trace (state_of (each_link U cu d hrefs c))) = finished_payloads (trace c)"
  "loaded_items (trace (state_of (each_link U cu d hrefs c))) = loaded_items (trace c)"
  "page_gets (trace (state_of (each_link U cu d hrefs c))) = page_gets (trace c)"
  by (induction hrefs arbitrary: c;
      simp add: state_of_each_link_Cons del: each_link.simps(2))+

lemma classify_conc: "conc_inv c \<Longrightarrow> conc_inv (state_of (classify U cu d a c))"
  using processExternalQueue_conc
    [of "c\<lparr>checkedLinks := insert a (checkedLinks c),
            externalCheckQueue := externalCheckQueue c @ [(a, cu)]\<rparr>"]
  by (auto simp: classify_def Let_def conc_inv_def split: option.split)

lemma process_link_conc: "conc_inv c \<Longrightarrow> conc_inv (state_of (process_link U cu d href c))"
  by (simp add: process_link_def classify_conc split: option.split)

lemma each_link_conc: "conc_inv c \<Longrightarrow> conc_inv (state_of (each_link U cu d hrefs c))"
  by (induction hrefs arbitrary: c)
     (simp_all add: state_of_each_link_Cons process_link_conc del: each_link.simps(2))

lemma finish_fields [simp]:
  "startUrl (finish c) = startUrl c"
  "checkedLinks (finish c) = checkedLinks c"
  "brokenLinks (finish c) = brokenLinks c"
  "isRunning (finish c) = isRunning c"
  "maxPages (finish c) = maxPages c"
  "maxDepth (finish c) = maxDepth c"
  "allowedDomains (finish c) = allowedDomains c"
  "activeRequests (finish c) = activeRequests c"
  "maxConcurrency (finish c) = maxConcurrency c"
  "externalCheckQueue (finish c) = externalCheckQueue c"
  "isProcessingExternal (finish c) = isProcessingExternal c"
  "inflight (finish c) = inflight c"
  "heap (finish c) = heap c"
  "loaded_items (trace (finish c)) = loaded_items (trace c)"
  "visited (finish c) = visited c"
  "queue (finish c) = queue c"
  "crawledCount (finish c) = crawledCount c"
  "pc (finish c) = Returned"
  "progress_items (trace (finish c)) = progress_items (trace c)"
  "page_gets (trace (finish c)) = page_gets (trace c)"
  "finished_payloads (trace (finish c)) = finished_payloads (trace c) @ [brokenLinks c]"
  by (simp_all add: finish_def emit_def)

lemma drain_wait_fields [simp]:
  "startUrl (drain_wait c) = startUrl c"
  "checkedLinks (drain_wait c) = checkedLinks c"
  "brokenLinks (drain_wait c) = brokenLinks c"
  "isRunning (drain_wait c) = isRunning c"
  "maxPages (drain_wait c) = maxPages c"
  "maxDepth (drain_wait c) = maxDepth c"
  "allowedDomains (drain_wait c) = allowedDomains c"
  "activeRequests (drain_wait c) = activeRequests c"
  "maxConcurrency (drain_wait c) = maxConcurrency c"
  "externalCheckQueue (drain_wait c) = externalCheckQueue c"
  "isProcessingExternal (drain_wait c) = isProcessingExternal c"
  "inflight (drain_wait c) = inflight c"
  "heap (drain_wait c) = heap c"
  "loaded_items (trace (drain_wait c)) = loaded_items (trace c)"
  "visited (drain_wait c) = visited c"
  "queue (drain_wait c) = queue c"
  "crawledCount (drain_wait c) = crawledCount c"
  "progress_items (trace (drain_wait c)) = progress_items (trace c)"
  "page_gets (trace (drain_wait c)) = page_gets (trace c)"
  by (simp_all add: drain_wait_def)

lemma begin_page_fields [simp]:
  "startUrl (begin_page u d c) = startUrl c"
  "checkedLinks (begin_page u d c) = checkedLinks c"
  "brokenLinks (begin_page u d c) = brokenLinks c"
  "isRunning (begin_page u d c) = isRunning c"
  "maxPages (begin_page u d c) = maxPages c"
  "maxDepth (begin_page u d c) = maxDepth c"
  "allowedDomains (begin_page u d c) = allowedDomains c"
  "activeRequests (begin_page u d c) = activeRequests c"
  "maxConcurrency (begin_page u d c) = maxConcurrency c"
  "externalCheckQueue (begin_page u d c) = externalCheckQueue c"
  "isProcessingExternal (begin_page u d c) = isProcessingExternal c"
  "inflight (begin_page u d c) = inflight c"
  "heap (begin_page u d c) = heap c"
  "loaded_items (trace (begin_page u d c)) = loaded_items (trace c)"
  "visited (begin_page u d c) = insert u (visited c)"
  "queue (begin_page u d c) = queue c"
  "crawledCount (begin_page u d c) = crawledCount c + 1"
  "pc (begin_page u d c) = Await_page u d"
  "progress_items (trace (begin_page u d c)) = progress_items (trace c) @ [(u, d)]"
  "page_gets (trace (begin_page u d c)) = page_gets (trace c) @ [u]"
  "finished_payloads (trace (begin_page u d c)) = finished_payloads (trace c)"
  by (simp_all add: begin_page_def emit_def Let_def)

lemma main_loop_unfold:
  "\<not> main_cond c \<Longrightarrow> main_loop c = drain_wait c"
  "main_cond c \<Longrightarrow> fst (hd (queue c)) \<in> visited c \<Longrightarrow> main_loop c = main_loop (dequeue c)"
  "main_cond c \<Longrightarrow> fst (hd (queue c)) \<notin> visited c \<Longrightarrow>
     main_loop c = begin_page (fst (hd (queue c))) (snd (hd (queue c))) (dequeue c)"
  by (simp_all add: main_loop.simps [of c])

lemma main_loop_cases [consumes 0, case_names exit skip page]:
  assumes "\<And>c. \<not> main_cond c \<Longrightarrow> P c (drain_wait c)"
    and "\<And>c. main_cond c \<Longrightarrow> fst (hd (queue c)) \<in> visited c \<Longrightarrow>
           P (dequeue c) (main_loop (dequeue c)) \<Longrightarrow> P c (main_loop (dequeue c))"
    and "\<And>c. main_cond c \<Longrightarrow> fst (hd (queue c)) \<notin> visited c \<Longrightarrow>
           P c (begin_page (fst (hd (queue c))) (snd (hd (queue c))) (dequeue c))"
  shows "P c (main_loop c)"
proof (induction c rule: main_loop.induct)
  case (1 c)
  consider "\<not> main_cond c" | "main_cond c" "fst (hd (queue c)) \<in> visited c"
    | "main_cond c" "fst (hd (queue c)) \<notin> visited c"
    by blast
  then show ?case
  proof cases
    case 1
    then show ?thesis using assms(1) by (simp add: main_loop_unfold)
  next
    case 2
    then show ?thesis using assms(2) [of c] "1.IH" by (simp add: main_loop_unfold)
  next
    case 3
    then show ?thesis using assms(3) [of c] by (simp add: main_loop_unfold)
  qed
qed

lemma dequeue_fields [simp]:
  "startUrl (dequeue c) = startUrl c"
  "visited (dequeue c) = visited c"
  "checkedLinks (dequeue c) = checkedLinks c"
  "queue (dequeue c) = tl (queue c)"
  "brokenLinks (dequeue c) = brokenLinks c"
  "isRunning (dequeue c) = isRunning c"
  "maxPages (dequeue c) = maxPages c"
  "maxDepth (dequeue c) = maxDepth c"
  "allowedDomains (dequeue c) = allowedDomains c"
  "crawledCount (dequeue c) = crawledCount c"
  "activeRequests (dequeue c) = activeRequests c"
  "maxConcurrency (dequeue c) = maxConcurrency c"
  "externalCheckQueue (dequeue c) = externalCheckQueue c"
  "isProcessingExternal (dequeue c) = isProcessingExternal c"
  "pc (dequeue c) = pc c"
  "inflight (dequeue c) = inflight c"
  "heap (dequeue c) = heap c"
  "trace (dequeue c) = trace c"
  by (simp_all add: dequeue_def)

lemma main_loop_fields [simp]:
  "startUrl (main_loop c) = startUrl c"
  "checkedLinks (main_loop c) = checkedLinks c"
  "brokenLinks (main_loop c) = brokenLinks c"
  "isRunning (main_loop c) = isRunning c"
  "maxPages (main_loop c) = maxPages c"
  "maxDepth (main_loop c) = maxDepth c"
  "allowedDomains (main_loop c) = allowedDomains c"
  "activeRequests (main_loop c) = activeRequests c"
  "maxConcurrency (main_loop c) = maxConcurrency c"
  "externalCheckQueue (main_loop c) = externalCheckQueue c"
  "isProcessingExternal (main_loop c) = isProcessingExternal c"
  "inflight (main_loop c) = inflight c"
  "heap (main_loop c) = heap c"
  "loaded_items (trace (main_loop c)) = loaded_items (trace c)"
  by (rule main_loop_cases [of _ c]; simp)+

lemma politeness_delay_fields [simp]:
  "startUrl (politeness_delay c) = startUrl c"
  "visited (politeness_delay c) = visited c"
  "checkedLinks (politeness_delay c) = checkedLinks c"
  "queue (politeness_delay c) = queue c"
  "brokenLinks (politeness_delay c) = brokenLinks c"
  "isRunning (politeness_delay c) = isRunning c"
  "maxPages (politeness_delay c) = maxPages c"
  "maxDepth (politeness_delay c) = maxDepth c"
  "allowedDomains (politeness_delay c) = allowedDomains c"
  "crawledCount (politeness_delay c) = crawledCount c"
  "activeRequests (politeness_delay c) = activeRequests c"
  "maxConcurrency (politeness_delay c) = maxConcurrency c"
  "externalCheckQueue (politeness_delay c) = externalCheckQueue c"
  "isProcessingExternal (politeness_delay c) = isProcessingExternal c"
  "inflight (politeness_delay c) = inflight c"
  "heap (politeness_delay c) = heap c"
  "progress_items (trace (politeness_delay c)) = progress_items (trace c)"
  "finished_payloads (trace (politeness_delay c)) = finished_payloads (trace c)"
  "loaded_items (trace (politeness_delay c)) = loaded_items (trace c)"
  "page_gets (trace (politeness_delay c)) = page_gets (trace c)"
  "pc (politeness_delay c) = Await_delay"
  by (simp_all add: politeness_delay_def)

lemma fetch_error_fields [simp]:
  "startUrl (fetch_error u c) = startUrl c"
  "visited (fetch_error u c) = visited c"
  "checkedLinks (fetch_error u c) = checkedLinks c"
  "queue (fetch_error u c) = queue c"
  "isRunning (fetch_error u c) = isRunning c"
  "maxPages (fetch_error u c) = maxPages c"
  "maxDepth (fetch_error u c) = maxDepth c"
  "allowedDomains (fetch_error u c) = allowedDomains c"
  "crawledCount (fetch_error u c) = crawledCount c"
  "activeRequests (fetch_error u c) = activeRequests c"
  "maxConcurrency (fetch_error u c) = maxConcurrency c"
  "externalCheckQueue (fetch_error u c) = externalCheckQueue c"
  "isProcessingExternal (fetch_error u c) = isProcessingExternal c"
  "pc (fetch_error u c) = pc c"
  "inflight (fetch_error u c) = inflight c"
  "heap (fetch_error u c) = heap c"
  "progress_items (trace (fetch_error u c)) = progress_items (trace c)"
  "finished_payloads (trace (fetch_error u c)) = finished_payloads (trace c)"
  "loaded_items (trace (fetch_error u c)) = loaded_items (trace c)"
  "page_gets (trace (fetch_error u c)) = page_gets (trace c)"
  "brokenLinks (fetch_error u c) =
     brokenLinks c @ [\<lparr>bl_url = u, bl_status = ErrorMarker, bl_source = ''seed''\<rparr>]"
  by (simp_all add: fetch_error_def emit_def)

lemma after_page_fields [simp]:
  "startUrl (after_page U cu d r c) = startUrl c"
  "isRunning (after_page U cu d r c) = isRunning c"
  "maxPages (after_page U cu d r c) = maxPages c"
  "maxDepth (after_page U cu d r c) = maxDepth c"
  "allowedDomains (after_page U cu d r c) = allowedDomains c"
  "maxConcurrency (after_page U cu d r c) = maxConcurrency c"
  "isProcessingExternal (after_page U cu d r c) = isProcessingExternal c"
  "heap (after_page U cu d r c) = heap c"
  by (simp_all add: after_page_def sum_case_state split: page_result.split)

subsection \<open>Runs\<close>

lemma run_invariant:
  assumes "\<And>a c c'. I c \<Longrightarrow> step U a c = Some c' \<Longrightarrow> I c'"
    and "I c" and "run U as c = Some c'"
  shows "I c'"
  using assms(2,3)
proof (induction as arbitrary: c)
  case Nil
  then show ?case by simp
next
  case (Cons a as)
  then obtain c1 where "step U a c = Some c1" "run U as c1 = Some c'"
    by (auto split: option.splits)
  then show ?case using Cons.IH [of c1] assms(1) [OF Cons.prems(1)] by blast
qed

lemma step_invariant:
  assumes page: "\<And>cu d r c. I c \<Longrightarrow> pc c = Await_page cu d \<Longrightarrow> I (after_page U cu d r c)"
    and loop: "\<And>c. I c \<Longrightarrow> pc c = Await_delay \<Longrightarrow> I (main_loop c)"
    and poll: "\<And>c. I c \<Longrightarrow> pc c = Await_poll \<Longrightarrow> I (drain_wait (processExternalQueue c))"
    and head: "\<And>i r c. I c \<Longrightarrow> I (checkExternalLink_after_head i r c)"
    and get: "\<And>i r c. I c \<Longrightarrow> I (checkExternalLink_after_get i r c)"
    and fin: "\<And>i c. I c \<Longrightarrow> I (check_finally i c)"
    and stop: "\<And>c. I c \<Longrightarrow> I (emit Log_stopped (c\<lparr>isRunning := False\<rparr>))"
    and abandon: "\<And>c. I c \<Longrightarrow> I (c\<lparr>isRunning := False\<rparr>)"
    and "I c" and "step U a c = Some c'"
  shows "I c'"
proof (cases a)
  case (Page_done r)
  then show ?thesis using assms(9,10) page by (auto split: pc.splits)
next
  case Delay_done
  then show ?thesis using assms(9,10) loop by (auto split: if_splits)
next
  case Poll_done
  then show ?thesis using assms(9,10) poll by (auto split: if_splits)
next
  case (Head_done i r)
  then show ?thesis using assms(9,10) head by (auto split: if_splits)
next
  case (Get_done i r)
  then show ?thesis using assms(9,10) get by (auto split: if_splits)
next
  case (Finally_done i)
  then show ?thesis using assms(9,10) fin by (auto split: if_splits)
next
  case Stop_crawl
  then show ?thesis using assms(9,10) stop by auto
next
  case Abandon
  then show ?thesis using assms(9,10) abandon by auto
qed

text \<open>The example run is a run.\<close>

lemma demo_run: "run demo_URL demo_actions demo_session = Some demo_final"
proof -
  have "run demo_URL demo_actions demo_session \<noteq> None" by code_simp
  then show ?thesis by (auto simp: demo_final_def)
qed

subsection \<open>The concurrency ceiling\<close>

lemma constructor_fields [simp]:
  "visited (constructor U url r h) = {}"
  "checkedLinks (constructor U url r h) = {}"
  "brokenLinks (constructor U url r h) = []"
  "isRunning (constructor U url r h) = False"
  "crawledCount (constructor U url r h) = 0"
  "activeRequests (constructor U url r h) = 0"
  "maxConcurrency (constructor U url r h) = 5"
  "externalCheckQueue (constructor U url r h) = []"
  "isProcessingExternal (constructor U url r h) = False"
  "pc (constructor U url r h) = Not_started"
  "inflight (constructor U url r h) = []"
  "trace (constructor U url r h) = []"
  "startUrl (constructor U url r h) = normalizeUrl U url"
  "queue (constructor U url r h) =
     (case normalizeUrl U url of None \<Rightarrow> [] | Some s \<Rightarrow> [(s, 0)])"
  by (simp_all add: constructor_def Let_def case_prod_beta)

lemma start_conc: "conc_inv c \<Longrightarrow> conc_inv (start c)"
  by (simp add: start_def conc_inv_def emit_def split: option.split)

lemma session_conc: "conc_inv (session U url r h)"
  unfolding session_def by (rule start_conc) (simp add: conc_inv_def)

lemma after_page_conc: "conc_inv c \<Longrightarrow> conc_inv (after_page U cu d r c)"
proof (cases r)
  case Page_failed
  assume "conc_inv c"
  then show ?thesis using Page_failed by (simp add: after_page_def conc_inv_def)
next
  case (Page_response st ct hrefs)
  assume c: "conc_inv c"
  then have "conc_inv (effect (Load_html cu d) c)" by (simp add: conc_inv_def)
  from each_link_conc [OF this, of U cu d hrefs] c show ?thesis using Page_response
    by (auto simp: after_page_def conc_inv_def sum_case_state)
qed

lemma step_conc: "conc_inv c \<Longrightarrow> step U a c = Some c' \<Longrightarrow> conc_inv c'"
proof (cases a)
  case (Page_done r)
  assume "conc_inv c" "step U a c = Some c'"
  then show ?thesis using Page_done after_page_conc by (auto split: pc.splits)
next
  case Delay_done
  assume "conc_inv c" "step U a c = Some c'"
  then show ?thesis using Delay_done by (auto simp: conc_inv_def split: if_splits)
next
  case Poll_done
  assume "conc_inv c" "step U a c = Some c'"
  then show ?thesis using Poll_done processExternalQueue_conc [of c]
    by (auto simp: conc_inv_def split: if_splits)
next
  case (Head_done i r)
  assume "conc_inv c" "step U a c = Some c'"
  then show ?thesis using Head_done by (auto simp: conc_inv_def split: if_splits)
next
  case (Get_done i r)
  assume "conc_inv c" "step U a c = Some c'"
  then show ?thesis using Get_done by (auto simp: conc_inv_def split: if_splits)
next
  case (Finally_done i)
  assume "conc_inv c" "step U a c = Some c'"
  then show ?thesis using Finally_done check_finally_conc [of c i]
    by (auto simp: phase_at_def split: if_splits)
next
  case Stop_crawl
  assume "conc_inv c" "step U a c = Some c'"
  then show ?thesis using Stop_crawl by (auto simp: conc_inv_def emit_def)
next
  case Abandon
  assume "conc_inv c" "step U a c = Some c'"
  then show ?thesis using Abandon by (auto simp: conc_inv_def)
qed

text \<open>
  C8.  In every state a session reaches, the calls of \<^verbatim>\<open>checkExternalLink\<close> that have
  begun and whose \<^verbatim>\<open>finally\<close> callback has not run are exactly as many as the counter
  of active requests says, and there are at most 5 of them; so at most 5 verifications
  are waiting for a response.
\<close>

theorem concurrency_ceiling:
  assumes "run U as (session U url r h) = Some c"
  shows "activeRequests c = int (length (inflight c)) \<and> length (inflight c) \<le> 5 \<and>
         length (filter (\<lambda>x. snd (snd x) \<noteq> Settled) (inflight c)) \<le> 5"
proof -
  have "conc_inv c"
    using run_invariant [of conc_inv U, OF step_conc session_conc assms] .
  then have "activeRequests c = int (length (inflight c))" "length (inflight c) \<le> 5"
    by (simp_all add: conc_inv_def)
  moreover have "length (filter (\<lambda>x. snd (snd x) \<noteq> Settled) (inflight c)) \<le> length (inflight c)"
    by (rule length_filter_le)
  ultimately show ?thesis by linarith
qed

theorem concurrency_ceiling_witness:
  "run demo_URL [Page_done demo_busy_page] demo_session \<noteq> None \<and>
   activeRequests (the (run demo_URL [Page_done demo_busy_page] demo_session)) = 5 \<and>
   length (inflight (the (run demo_URL [Page_done demo_busy_page] demo_session))) = 5 \<and>
   length (externalCheckQueue (the (run demo_URL [Page_done demo_busy_page] demo_session))) = 1"
proof -
  have "run demo_URL [Page_done demo_busy_page] demo_session \<noteq> None"
    by code_simp
  then obtain c where c: "run demo_URL [Page_done demo_busy_page] demo_session = Some c"
    by auto
  have "length (externalCheckQueue (the (run demo_URL [Page_done demo_busy_page] demo_session))) = 1"
    by code_simp
  moreover have "length (inflight (the (run demo_URL [Page_done demo_busy_page] demo_session))) = 5"
    by code_simp
  ultimately show ?thesis
    using concurrency_ceiling [OF c [unfolded demo_session_def]] c by simp
qed

subsection \<open>The page budget\<close>

lemma succ_within_ceiling: "of_int n < (m::rat) \<Longrightarrow> n + 1 \<le> max 0 \<lceil>m\<rceil>"
proof -
  assume "of_int n < m"
  then have "n < \<lceil>m\<rceil>" by (simp add: less_ceiling_iff)
  then show ?thesis by simp
qed

lemma within_integer_limit:
  assumes "0 \<le> (m::rat)" and "m \<in> \<int>" and "n \<le> max 0 \<lceil>m\<rceil>"
  shows "of_int n \<le> m"
proof -
  obtain k where k: "m = of_int k" using assms(2) by (rule Ints_cases)
  then have "0 \<le> k" using assms(1) by simp
  then have "n \<le> k" using assms(3) k by simp
  then show ?thesis using k by simp
qed

lemma main_loop_budget_imp: "budget_inv c \<longrightarrow> budget_inv (main_loop c)"
proof (rule main_loop_cases [of "\<lambda>c c'. budget_inv c \<longrightarrow> budget_inv c'" c])
  fix c
  show "budget_inv c \<longrightarrow> budget_inv (drain_wait c)"
    by (auto simp: budget_inv_def progress_urls_def)
next
  fix c assume "budget_inv (dequeue c) \<longrightarrow> budget_inv (main_loop (dequeue c))"
  then show "budget_inv c \<longrightarrow> budget_inv (main_loop (dequeue c))"
    by (auto simp: budget_inv_def progress_urls_def)
next
  fix c assume "main_cond c"
  then have "crawledCount c + 1 \<le> max 0 \<lceil>maxPages c\<rceil>"
    by (intro succ_within_ceiling) (simp add: main_cond_def)
  then show "budget_inv c \<longrightarrow>
             budget_inv (begin_page (fst (hd (queue c))) (snd (hd (queue c))) (dequeue c))"
    by (auto simp: budget_inv_def progress_urls_def)
qed

lemma main_loop_budget: "budget_inv c \<Longrightarrow> budget_inv (main_loop c)"
  using main_loop_budget_imp by blast

lemma after_page_budget: "budget_inv c \<Longrightarrow> budget_inv (after_page U cu d r c)"
proof -
  assume c: "budget_inv c"
  have a: "\<And>x. budget_inv x \<Longrightarrow> budget_inv (politeness_delay x)"
    and b: "\<And>x. budget_inv x \<Longrightarrow> budget_inv (fetch_error cu x)"
    and e: "\<And>x st. budget_inv x \<Longrightarrow> budget_inv (reportBroken cu st ''seed'' x)"
    and l: "\<And>x hrefs. budget_inv x \<Longrightarrow>
              budget_inv (state_of (each_link U cu d hrefs (effect (Load_html cu d) x)))"
    by (auto simp: budget_inv_def progress_urls_def)
  show ?thesis
    using c by (simp add: after_page_def sum_case_state a b e l main_loop_budget
        split: page_result.split)
qed

lemma step_budget: "budget_inv c \<Longrightarrow> step U a c = Some c' \<Longrightarrow> budget_inv c'"
proof (erule step_invariant [of budget_inv U, rotated -2])
  show "\<And>c. budget_inv c \<Longrightarrow> budget_inv (drain_wait (processExternalQueue c))"
    "\<And>i r c. budget_inv c \<Longrightarrow> budget_inv (checkExternalLink_after_head i r c)"
    "\<And>i r c. budget_inv c \<Longrightarrow> budget_inv (checkExternalLink_after_get i r c)"
    "\<And>i c. budget_inv c \<Longrightarrow> budget_inv (check_finally i c)"
    "\<And>c. budget_inv c \<Longrightarrow> budget_inv (emit Log_stopped (c\<lparr>isRunning := False\<rparr>))"
    "\<And>c. budget_inv c \<Longrightarrow> budget_inv (c\<lparr>isRunning := False\<rparr>)"
    by (auto simp: budget_inv_def progress_urls_def emit_def)
qed (simp_all add: main_loop_budget after_page_budget)

lemma start_budget: "budget_inv c \<Longrightarrow> budget_inv (start c)"
proof -
  assume c: "budget_inv c"
  have "\<And>e. budget_inv (emit (Log_start e (maxDepth c)) (c\<lparr>isRunning := True\<rparr>))"
    "budget_inv (emit Error_invalid_start c\<lparr>pc := Returned\<rparr>)"
    using c by (auto simp: budget_inv_def progress_urls_def emit_def)
  then show ?thesis by (simp add: start_def main_loop_budget split: option.split)
qed

lemma session_budget: "budget_inv (session U url r h)"
  unfolding session_def by (rule start_budget) (simp add: budget_inv_def)

lemma reach_budget: "run U as (session U url r h) = Some c \<Longrightarrow> budget_inv c"
  using run_invariant [of budget_inv U, OF step_budget session_budget] .

text \<open>
  C7, as amended.  In every state a session reaches, the page counter is at most the
  budget rounded up to a whole number, or 0 when that is negative; so it is at most
  \<^verbatim>\<open>maxPages\<close> whenever \<^verbatim>\<open>maxPages\<close> is a whole number of at least 0.  The counter
  is the number of page requests made so far, one after each progress event.
\<close>

theorem pages_crawled_within_rounded_budget:
  assumes "run U as (session U url r h) = Some c"
  shows "crawledCount c \<le> max 0 \<lceil>maxPages c\<rceil> \<and>
         (0 \<le> maxPages c \<and> maxPages c \<in> \<int> \<longrightarrow> of_int (crawledCount c) \<le> maxPages c) \<and>
         crawledCount c = int (length (page_gets (trace c))) \<and>
         page_gets (trace c) = progress_urls (trace c)"
proof -
  have b: "budget_inv c" using reach_budget [OF assms] .
  then have "crawledCount c \<le> max 0 \<lceil>maxPages c\<rceil>"
    by (auto simp: budget_inv_def)
  then show ?thesis
    using b within_integer_limit [of "maxPages c" "crawledCount c"]
    by (auto simp: budget_inv_def)
qed

theorem pages_crawled_within_rounded_budget_witness:
  "run demo_URL demo_actions demo_session = Some demo_final \<and>
   maxPages demo_final = 10 \<and> 0 \<le> maxPages demo_final \<and> maxPages demo_final \<in> \<int> \<and>
   crawledCount demo_final = 4 \<and>
   of_int (crawledCount demo_final) \<le> maxPages demo_final"
proof -
  have m: "maxPages demo_final = 10" and "crawledCount demo_final = 4"
    unfolding demo_final_def by code_simp+
  moreover have "maxPages demo_final \<in> \<int>" unfolding m by simp
  ultimately show ?thesis
    using pages_crawled_within_rounded_budget [OF demo_run [unfolded demo_session_def]]
      demo_run
    by simp
qed

text \<open>
  C7, as stated, fails.  With a budget of 2.5 pages the session of the example requests
  three pages, because the loop condition still holds when two pages are counted.  With
  a budget of -1 no page is requested, and the counter, 0, is above the budget.
\<close>

theorem budget_exceeded:
  "maxPages (demo_limits_final (5 / 2) 2) = 5 / 2 \<and>
   crawledCount (demo_limits_final (5 / 2) 2) = 3 \<and>
   page_gets (trace (demo_limits_final (5 / 2) 2)) =
     [''http://a.example/'', ''http://a.example/x'', ''http://a.example/z''] \<and>
   \<not> of_int (crawledCount (demo_limits_final (5 / 2) 2)) \<le> maxPages (demo_limits_final (5 / 2) 2) \<and>
   maxPages (demo_limits (- 1) 2) = - 1 \<and>
   crawledCount (demo_limits (- 1) 2) = 0 \<and>
   \<not> of_int (crawledCount (demo_limits (- 1) 2)) \<le> maxPages (demo_limits (- 1) 2)"
  by code_simp

subsection \<open>Progress events\<close>

lemma main_loop_visit: "visit_inv c \<Longrightarrow> visit_inv (main_loop c)"
  by (rule main_loop_cases [of "\<lambda>c c'. visit_inv c \<longrightarrow> visit_inv c'" c, rule_format])
     (auto simp: visit_inv_def progress_urls_def)

lemma after_page_visit: "visit_inv c \<Longrightarrow> visit_inv (after_page U cu d r c)"
proof -
  assume c: "visit_inv c"
  have a: "\<And>x. visit_inv x \<Longrightarrow> visit_inv (politeness_delay x)"
    and b: "\<And>x. visit_inv x \<Longrightarrow> visit_inv (fetch_error cu x)"
    and e: "\<And>x st. visit_inv x \<Longrightarrow> visit_inv (reportBroken cu st ''seed'' x)"
    and l: "\<And>x hrefs. visit_inv x \<Longrightarrow>
              visit_inv (state_of (each_link U cu d hrefs (effect (Load_html cu d) x)))"
    by (simp_all add: visit_inv_def progress_urls_def)
  show ?thesis
    using c by (simp add: after_page_def sum_case_state a b e l main_loop_visit
        split: page_result.split)
qed

lemma step_visit: "visit_inv c \<Longrightarrow> step U a c = Some c' \<Longrightarrow> visit_inv c'"
proof (erule step_invariant [of visit_inv U, rotated -2])
  show "\<And>c. visit_inv c \<Longrightarrow> visit_inv (drain_wait (processExternalQueue c))"
    "\<And>i r c. visit_inv c \<Longrightarrow> visit_inv (checkExternalLink_after_head i r c)"
    "\<And>i r c. visit_inv c \<Longrightarrow> visit_inv (checkExternalLink_after_get i r c)"
    "\<And>i c. visit_inv c \<Longrightarrow> visit_inv (check_finally i c)"
    "\<And>c. visit_inv c \<Longrightarrow> visit_inv (emit Log_stopped (c\<lparr>isRunning := False\<rparr>))"
    "\<And>c. visit_inv c \<Longrightarrow> visit_inv (c\<lparr>isRunning := False\<rparr>)"
    by (simp_all add: visit_inv_def progress_urls_def emit_def)
qed (simp_all add: main_loop_visit after_page_visit)

lemma start_visit: "visit_inv c \<Longrightarrow> visit_inv (start c)"
proof -
  assume c: "visit_inv c"
  have "\<And>e. visit_inv (emit (Log_start e (maxDepth c)) (c\<lparr>isRunning := True\<rparr>))"
    "visit_inv (emit Error_invalid_start c\<lparr>pc := Returned\<rparr>)"
    using c by (simp_all add: visit_inv_def progress_urls_def emit_def)
  then show ?thesis by (simp add: start_def main_loop_visit split: option.split)
qed

lemma session_visit: "visit_inv (session U url r h)"
  unfolding session_def by (rule start_visit) (simp add: visit_inv_def)

text \<open>
  C5.  In every state a session reaches, the URLs of the progress events emitted so far
  are pairwise distinct, each of them is marked visited, and the URLs of the page requests
  made so far are pairwise distinct.
\<close>

theorem progress_urls_distinct:
  assumes "run U as (session U url r h) = Some c"
  shows "distinct (progress_urls (trace c)) \<and> set (progress_urls (trace c)) \<subseteq> visited c \<and>
         distinct (page_gets (trace c))"
  using run_invariant [of visit_inv U, OF step_visit session_visit assms]
    reach_budget [OF assms]
  by (simp add: visit_inv_def budget_inv_def)

theorem progress_urls_distinct_witness:
  "run demo_URL demo_actions demo_session = Some demo_final \<and>
   progress_urls (trace demo_final) =
     [''http://a.example/'', ''http://a.example/x'', ''http://a.example/z'',
      ''http://a.example/w''] \<and>
   distinct (progress_urls (trace demo_final))"
proof -
  have "progress_urls (trace demo_final) =
     [''http://a.example/'', ''http://a.example/x'', ''http://a.example/z'',
      ''http://a.example/w'']"
    unfolding demo_final_def by code_simp
  then show ?thesis
    using progress_urls_distinct [OF demo_run [unfolded demo_session_def]] demo_run
    by simp
qed

subsection \<open>The depth limit\<close>

















subsection \<open>Verifying an external link\<close>

text \<open>
  C2.  For a verification in flight: when its HEAD request comes back with a status of 400
  or more other than 405, one GET request is sent, nothing is reported and the
  verification waits for the GET; when the GET comes back, the verification settles and
  reports by the GET's outcome; when the HEAD request fails, or comes back with a status
  below 400 or with 405, no GET is sent and the verification settles and reports by the
  HEAD's outcome.  The report is the status when it is 400 or more, nothing when it is
  below 400, and the error marker when the request failed.
\<close>

theorem head_then_get_fallback:
  assumes "i < length (inflight c)"
  shows
    "(inflight c ! i = (u, src, Await_head) \<and> 400 \<le> st \<and> st \<noteq> 405 \<longrightarrow>
        (\<exists>c'. step U (Head_done i (Check_response st)) c = Some c' \<and>
              trace c' = trace c @ [Get_req u] \<and> brokenLinks c' = brokenLinks c \<and>
              inflight c' = (inflight c)[i := (u, src, Await_get)])) \<and>
     (inflight c ! i = (u, src, Await_get) \<longrightarrow>
        (\<exists>c'. step U (Get_done i r) c = Some c' \<and> reports c c' (verdict u src r) \<and>
              inflight c' = (inflight c)[i := (u, src, Settled)])) \<and>
     (inflight c ! i = (u, src, Await_head) \<and>
      (r = Check_failed \<or> (\<exists>s. r = Check_response s \<and> (s < 400 \<or> s = 405))) \<longrightarrow>
        (\<exists>c'. step U (Head_done i r) c = Some c' \<and> reports c c' (verdict u src r) \<and>
              inflight c' = (inflight c)[i := (u, src, Settled)]))"
  using assms
  by (auto simp: phase_at_def checkExternalLink_after_head_def checkExternalLink_after_get_def
      settle_def report_status_def reports_def verdict_def effect_def
      split: check_result.split)


theorem head_then_get_fallback_witness:
  "0 < length (inflight demo_checking) \<and>
   inflight demo_checking ! 0 = (''http://b.example/y'', ''http://a.example/'', Await_head) \<and>
   (\<exists>c'. step demo_URL (Head_done 0 (Check_response 404)) demo_checking = Some c' \<and>
         trace c' = trace demo_checking @ [Get_req ''http://b.example/y''] \<and>
         brokenLinks c' = brokenLinks demo_checking \<and>
         inflight c' =
           (inflight demo_checking)
             [0 := (''http://b.example/y'', ''http://a.example/'', Await_get)])"
proof -
  have a: "0 < length (inflight demo_checking)"
    unfolding demo_checking_def by code_simp
  have b: "inflight demo_checking ! 0 =
             (''http://b.example/y'', ''http://a.example/'', Await_head)"
    unfolding demo_checking_def by code_simp
  show ?thesis
    using head_then_get_fallback
      [OF a, of "''http://b.example/y''" "''http://a.example/''" 404 demo_URL] a b
    by simp
qed


text \<open>
  C1.  The session of the example has one verification in flight.  Its HEAD request comes
  back with status 405: the link is reported broken with status 405 at once, no GET
  request is sent, and the verification is settled, so that no response to a GET is
  awaited.
\<close>

theorem head_405_reported_without_get:
  "trace (the (run demo_URL [Page_done demo_page, Head_done 0 (Check_response 405)] demo_session)) =
     [Emit (Log_start ''http://a.example/'' 2),
      Emit (Progress ''http://a.example/'' 1 0 0),
      Emit (Log_crawling 0 ''http://a.example/''),
      Page_get ''http://a.example/'',
      Load_html ''http://a.example/'' 0,
      Head_req ''http://b.example/y'',
      Sleep 500,
      Emit (Broken_link \<lparr>bl_url = ''http://b.example/y'', bl_status = Code 405,
                          bl_source = ''http://a.example/''\<rparr>)] \<and>
   inflight (the (run demo_URL [Page_done demo_page, Head_done 0 (Check_response 405)] demo_session)) =
     [(''http://b.example/y'', ''http://a.example/'', Settled)] \<and>
   run demo_URL
     [Page_done demo_page, Head_done 0 (Check_response 405), Get_done 0 (Check_response 200)]
     demo_session = None"
  by code_simp


subsection \<open>The politeness delay\<close>

text \<open>
  C3.  In the session of the example the page \<^verbatim>\<open>/x\<close> comes back with status 404.  It is
  reported broken, and the next page, \<^verbatim>\<open>/z\<close>, is requested with no timer in between:
  the trace has no \<open>Sleep\<close> after the request of \<^verbatim>\<open>/x\<close>.
\<close>

theorem no_delay_after_broken_page:
  "trace (the (run demo_URL [Page_done demo_page, Delay_done, Page_done (Page_response 404 None [])]
                 demo_session)) =
     [Emit (Log_start ''http://a.example/'' 2),
      Emit (Progress ''http://a.example/'' 1 0 0),
      Emit (Log_crawling 0 ''http://a.example/''),
      Page_get ''http://a.example/'',
      Load_html ''http://a.example/'' 0,
      Head_req ''http://b.example/y'',
      Sleep 500,
      Emit (Progress ''http://a.example/x'' 2 1 1),
      Emit (Log_crawling 1 ''http://a.example/x''),
      Page_get ''http://a.example/x'',
      Emit (Broken_link \<lparr>bl_url = ''http://a.example/x'', bl_status = Code 404,
                          bl_source = ''seed''\<rparr>),
      Emit (Progress ''http://a.example/z'' 3 0 1),
      Emit (Log_crawling 1 ''http://a.example/z''),
      Page_get ''http://a.example/z''] \<and>
   pc (the (run demo_URL [Page_done demo_page, Delay_done, Page_done (Page_response 404 None [])]
              demo_session)) = Await_page ''http://a.example/z'' 1"
  by code_simp


subsection \<open>The constructor and the caller's array\<close>

text \<open>
  C10.  When the options object of the caller refers to an array of allowed domains, the
  seed URL parses and its host name is not in the array, then the crawler keeps the
  reference to that very array, the host name is appended to the array in the heap, and
  nothing else in the heap changes: the options object still has the same fields, and no
  new array is allocated.
\<close>

theorem constructor_pushes_seed_host:
  assumes "r < length h" and "h ! r = Opts opts" and "opt_allowedDomains opts = Some a"
    and "a < length h" and "h ! a = Arr ds"
    and "normalizeUrl U url = Some s" and "U s None = Some p" and "hostname p \<notin> set ds"
  shows "allowedDomains (constructor U url r h) = a \<and>
         heap (constructor U url r h) = h[a := Arr (ds @ [hostname p])] \<and>
         options_at (heap (constructor U url r h)) r = opts"
proof -
  have ar: "a \<noteq> r" using assms(2,5) by auto
  have o: "options_at h r = opts" using assms(1,2) by (simp add: options_at_def)
  have d: "array_at h a = ds" "is_array h a"
    using assms(4,5) by (simp_all add: array_at_def is_array_def)
  have "allowedDomains (constructor U url r h) = a"
    using o assms(3) by (simp add: constructor_def Let_def)
  moreover have hp: "heap (constructor U url r h) = h[a := Arr (ds @ [hostname p])]"
    using o d assms(3,6,7,8) by (simp add: constructor_def Let_def)
  moreover have "options_at (h[a := Arr (ds @ [hostname p])]) r = opts"
    using ar assms(1,2) by (simp add: options_at_def)
  ultimately show ?thesis by simp
qed

theorem constructor_pushes_seed_host_witness:
  "0 < length demo_heap \<and>
   demo_heap ! 0 = Opts \<lparr>opt_maxPages = Some 10, opt_maxDepth = Some 2, opt_allowedDomains = Some 1\<rparr> \<and>
   demo_heap ! 1 = Arr [] \<and>
   heap (constructor demo_URL ''http://a.example/#top'' 0 demo_heap) =
     [Opts \<lparr>opt_maxPages = Some 10, opt_maxDepth = Some 2, opt_allowedDomains = Some 1\<rparr>,
      Arr [''a.example'']] \<and>
   allowedDomains (constructor demo_URL ''http://a.example/#top'' 0 demo_heap) = 1"
proof -
  have n: "normalizeUrl demo_URL ''http://a.example/#top'' = Some ''http://a.example/''"
    by code_simp
  have p: "demo_URL ''http://a.example/'' None =
             Some \<lparr>url_scheme = ''http'', url_credentials = [], url_host = Some ''a.example'',
                    url_port = [], url_path = ''/'', url_query = None, url_fragment = None\<rparr>"
    by code_simp
  show ?thesis
    using constructor_pushes_seed_host [of 0 demo_heap _ 1 "[]", OF _ _ _ _ _ n p]
    by (simp add: demo_heap_def hostname_def)
qed

subsection \<open>Stopping\<close>

lemma main_loop_stopped: "\<not> isRunning c \<Longrightarrow> main_loop c = finish c"
  by (simp add: main_loop_unfold main_cond_def drain_wait_def)

lemma drain_wait_stopped: "\<not> isRunning c \<Longrightarrow> drain_wait c = finish c"
  by (simp add: drain_wait_def)

lemma main_loop_pc: "pc (main_loop c) \<noteq> Not_started \<and> pc (main_loop c) \<noteq> Await_delay"
  by (rule main_loop_cases [of "\<lambda>c c'. pc c' \<noteq> Not_started \<and> pc c' \<noteq> Await_delay" c])
     (simp_all add: drain_wait_def)

lemma drain_wait_finished:
  "finished_payloads (trace (drain_wait c)) =
     finished_payloads (trace c) @ (if pc (drain_wait c) = Returned then [brokenLinks c] else [])"
  by (simp add: drain_wait_def)

lemma main_loop_finished:
  "finished_payloads (trace (main_loop c)) =
     finished_payloads (trace c) @ (if pc (main_loop c) = Returned then [brokenLinks c] else [])"
  by (rule main_loop_cases
        [of "\<lambda>c c'. finished_payloads (trace c') =
               finished_payloads (trace c) @ (if pc c' = Returned then [brokenLinks c] else [])" c])
     (simp_all add: drain_wait_finished)

lemma after_page_pc:
  "pc (after_page U cu d r c) \<noteq> Not_started"
  by (simp add: after_page_def sum_case_state main_loop_pc split: page_result.split)

lemma after_page_finished:
  "finished_payloads (trace (after_page U cu d r c)) =
     finished_payloads (trace c) @
     (if pc (after_page U cu d r c) = Returned then [brokenLinks (after_page U cu d r c)] else [])"
  by (simp add: after_page_def sum_case_state main_loop_finished split: page_result.split)

lemma after_page_prefix: "prefix (brokenLinks c) (brokenLinks (after_page U cu d r c))"
  by (simp add: after_page_def sum_case_state split: page_result.split)

lemma after_head_prefix: "prefix (brokenLinks c) (brokenLinks (checkExternalLink_after_head i r c))"
  by (simp add: checkExternalLink_after_head_def report_status_def case_prod_beta
      split: check_result.split)

lemma after_get_prefix: "prefix (brokenLinks c) (brokenLinks (checkExternalLink_after_get i r c))"
  by (simp add: checkExternalLink_after_get_def report_status_def case_prod_beta
      split: check_result.split)

lemma after_page_stopped:
  assumes "\<not> isRunning c"
  shows "rank (pc (after_page U cu d r c)) \<le> 1 \<and>
         progress_items (trace (after_page U cu d r c)) = progress_items (trace c)"
  using assms
  by (simp add: after_page_def sum_case_state main_loop_stopped split: page_result.split)


lemma step_fin: "fin_inv c \<Longrightarrow> step U a c = Some c' \<Longrightarrow> fin_inv c'"
proof (erule step_invariant [of fin_inv U, rotated -2])
  show "\<And>cu d r c. fin_inv c \<Longrightarrow> pc c = Await_page cu d \<Longrightarrow> fin_inv (after_page U cu d r c)"
    by (simp add: fin_inv_def after_page_finished after_page_pc)
  show "\<And>c. fin_inv c \<Longrightarrow> pc c = Await_delay \<Longrightarrow> fin_inv (main_loop c)"
    by (simp add: fin_inv_def main_loop_finished main_loop_pc)
  show "\<And>c. fin_inv c \<Longrightarrow> pc c = Await_poll \<Longrightarrow> fin_inv (drain_wait (processExternalQueue c))"
    by (simp add: fin_inv_def drain_wait_def)
  show "\<And>i r c. fin_inv c \<Longrightarrow> fin_inv (checkExternalLink_after_head i r c)"
    "\<And>i r c. fin_inv c \<Longrightarrow> fin_inv (checkExternalLink_after_get i r c)"
    "\<And>i c. fin_inv c \<Longrightarrow> fin_inv (check_finally i c)"
    "\<And>c. fin_inv c \<Longrightarrow> fin_inv (emit Log_stopped (c\<lparr>isRunning := False\<rparr>))"
    "\<And>c. fin_inv c \<Longrightarrow> fin_inv (c\<lparr>isRunning := False\<rparr>)"
    by (simp_all add: fin_inv_def emit_def)
qed

lemma session_fin: "fin_inv (session U url r h)"
  by (simp add: session_def start_def fin_inv_def emit_def main_loop_finished main_loop_pc
      split: option.split)

lemma reach_fin: "run U as (session U url r h) = Some c \<Longrightarrow> fin_inv c"
  using run_invariant [of fin_inv U, OF step_fin session_fin] .

lemma step_stopped: "stopped_inv c0 c \<Longrightarrow> step U a c = Some c' \<Longrightarrow> stopped_inv c0 c'"
proof (erule step_invariant [of "stopped_inv c0" U, rotated -2])
  show "stopped_inv c0 (after_page U cu d r c)"
    if "stopped_inv c0 c" "pc c = Await_page cu d" for cu d r c
  proof -
    have "prefix (brokenLinks c0) (brokenLinks (after_page U cu d r c))"
      using that(1) after_page_prefix [of c U cu d r]
      by (auto simp: stopped_inv_def intro: prefix_order.trans)
    then show ?thesis
      using that after_page_stopped [of c U cu d r]
      by (simp add: stopped_inv_def after_page_finished after_page_pc)
  qed
  show "stopped_inv c0 (main_loop c)" if "stopped_inv c0 c" "pc c = Await_delay" for c
    using that by (simp add: stopped_inv_def main_loop_stopped)
  show "stopped_inv c0 (drain_wait (processExternalQueue c))"
    if "stopped_inv c0 c" "pc c = Await_poll" for c
    using that by (simp add: stopped_inv_def drain_wait_stopped)
  show "stopped_inv c0 (checkExternalLink_after_head i r c)" if "stopped_inv c0 c" for i r c
    using that after_head_prefix [of c i r]
    by (auto simp: stopped_inv_def intro: prefix_order.trans)
  show "stopped_inv c0 (checkExternalLink_after_get i r c)" if "stopped_inv c0 c" for i r c
    using that after_get_prefix [of c i r]
    by (auto simp: stopped_inv_def intro: prefix_order.trans)
  show "stopped_inv c0 (check_finally i c)" if "stopped_inv c0 c" for i c
    using that by (simp add: stopped_inv_def)
  show "stopped_inv c0 (emit Log_stopped (c\<lparr>isRunning := False\<rparr>))" if "stopped_inv c0 c" for c
    using that by (simp add: stopped_inv_def emit_def)
  show "stopped_inv c0 (c\<lparr>isRunning := False\<rparr>)" if "stopped_inv c0 c" for c
    using that by (simp add: stopped_inv_def)
qed

lemma step_rank:
  assumes "\<not> isRunning c" and "step U a c = Some c'"
  shows "\<not> isRunning c' \<and> (if main_action a then rank (pc c') < rank (pc c) else pc c' = pc c)"
proof (cases a)
  case (Page_done r)
  have "rank (pc (after_page U cu d r c)) < 2" for cu d
    using after_page_stopped [OF assms(1), of U cu d r] by linarith
  then show ?thesis
    using Page_done assms by (auto split: pc.splits)
next
  case Delay_done
  then show ?thesis using assms by (auto simp: main_loop_stopped split: if_splits)
next
  case Poll_done
  then show ?thesis using assms by (auto simp: drain_wait_stopped split: if_splits)
next
  case (Head_done i r)
  then show ?thesis using assms by (auto split: if_splits)
next
  case (Get_done i r)
  then show ?thesis using assms by (auto split: if_splits)
next
  case (Finally_done i)
  then show ?thesis using assms by (auto split: if_splits)
next
  case Stop_crawl
  then show ?thesis using assms by (auto simp: emit_def)
next
  case Abandon
  then show ?thesis using assms by auto
qed

lemma run_rank:
  assumes "\<not> isRunning c" and "run U as c = Some c'"
  shows "rank (pc c') + length (filter main_action as) \<le> rank (pc c)"
  using assms
proof (induction as arbitrary: c)
  case Nil
  then show ?case by simp
next
  case (Cons a as)
  then obtain c1 where s: "step U a c = Some c1" "run U as c1 = Some c'"
    by (auto split: option.splits)
  from step_rank [OF Cons.prems(1) s(1)] Cons.IH [of c1] s(2)
  show ?case by (auto split: if_splits)
qed

lemma main_flow_enabled:
  "pc c \<noteq> Returned \<Longrightarrow> pc c \<noteq> Not_started \<Longrightarrow> \<exists>a. main_action a \<and> step U a c \<noteq> None"
proof (cases "pc c")
  case (Await_page u d)
  then have "main_action (Page_done Page_failed) \<and> step U (Page_done Page_failed) c \<noteq> None"
    by simp
  then show ?thesis by blast
next
  case Await_delay
  then have "main_action Delay_done \<and> step U Delay_done c \<noteq> None" by simp
  then show ?thesis by blast
next
  case Await_poll
  then have "main_action Poll_done \<and> step U Poll_done c \<noteq> None" by simp
  then show ?thesis by blast
qed simp_all


text \<open>
  C9.  Take any state a session reaches in which \<^verbatim>\<open>start\<close> has not returned, and let
  the stop handler run there.  In every state reached afterwards: no progress event has
  been added; the list of broken links has only grown; if \<^verbatim>\<open>start\<close> has returned,
  exactly one \<^verbatim>\<open>finished\<close> event has been emitted, and its payload is the list of broken
  links as it was at that moment (it extends the list at the stop and is extended by the
  present list); if \<^verbatim>\<open>start\<close> has not returned, no \<^verbatim>\<open>finished\<close> event has been
  emitted and an event that resumes the main control flow can happen.  Once two events
  that resume the main control flow have happened, \<^verbatim>\<open>start\<close> has returned.
\<close>

theorem stop_then_finished_once:
  assumes "run U as0 (session U url r h) = Some c" and "pc c \<noteq> Returned"
    and "run U (Stop_crawl # as) c = Some c'"
  shows "progress_items (trace c') = progress_items (trace c) \<and>
         prefix (brokenLinks c) (brokenLinks c') \<and>
         (if pc c' = Returned
          then \<exists>bl. finished_payloads (trace c') = [bl] \<and> prefix (brokenLinks c) bl \<and>
                    prefix bl (brokenLinks c')
          else finished_payloads (trace c') = [] \<and>
               (\<exists>a. main_action a \<and> step U a c' \<noteq> None)) \<and>
         (2 \<le> length (filter main_action as) \<longrightarrow> pc c' = Returned)"
proof -
  let ?c1 = "emit Log_stopped (c\<lparr>isRunning := False\<rparr>)"
  have f: "fin_inv c" using reach_fin [OF assms(1)] .
  have r: "run U as ?c1 = Some c'" using assms(3) by simp
  have i: "stopped_inv c ?c1"
    using f assms(2) by (simp add: stopped_inv_def fin_inv_def emit_def)
  have s: "stopped_inv c c'"
  proof (rule run_invariant [where I = "stopped_inv c" and U = U and as = as])
    show "\<And>a x x'. stopped_inv c x \<Longrightarrow> step U a x = Some x' \<Longrightarrow> stopped_inv c x'"
      by (rule step_stopped)
    show "stopped_inv c ?c1" by (rule i)
    show "run U as ?c1 = Some c'" by (rule r)
  qed
  have "rank (pc ?c1) \<le> 2"
    using f by (cases "pc c") (simp_all add: fin_inv_def emit_def)
  moreover have "rank (pc c') + length (filter main_action as) \<le> rank (pc ?c1)"
    by (rule run_rank [OF _ r]) (simp add: emit_def)
  ultimately have "2 \<le> length (filter main_action as) \<longrightarrow> rank (pc c') = 0"
    by linarith
  then have t: "2 \<le> length (filter main_action as) \<longrightarrow> pc c' = Returned"
    by (cases "pc c'") simp_all
  have e: "pc c' \<noteq> Returned \<longrightarrow> (\<exists>a. main_action a \<and> step U a c' \<noteq> None)"
    using s main_flow_enabled [of c' U] by (simp add: stopped_inv_def)
  show ?thesis
    using s t e by (simp add: stopped_inv_def)
qed

theorem stop_then_finished_once_witness:
  "run demo_URL [] demo_session = Some demo_session \<and> pc demo_session \<noteq> Returned \<and>
   run demo_URL [Stop_crawl, Page_done Page_failed, Delay_done] demo_session \<noteq> None \<and>
   2 \<le> length (filter main_action [Page_done Page_failed, Delay_done]) \<and>
   pc (the (run demo_URL [Stop_crawl, Page_done Page_failed, Delay_done] demo_session)) = Returned \<and>
   finished_payloads
     (trace (the (run demo_URL [Stop_crawl, Page_done Page_failed, Delay_done] demo_session))) =
     [[\<lparr>bl_url = ''http://a.example/'', bl_status = ErrorMarker, bl_source = ''seed''\<rparr>]] \<and>
   progress_items
     (trace (the (run demo_URL [Stop_crawl, Page_done Page_failed, Delay_done] demo_session))) =
     progress_items (trace demo_session)"
proof -
  have a: "run demo_URL [] (session demo_URL ''http://a.example/'' 0 demo_heap) = Some demo_session"
    by (simp add: demo_session_def)
  have b: "pc demo_session \<noteq> Returned"
    by code_simp
  have "run demo_URL [Stop_crawl, Page_done Page_failed, Delay_done] demo_session \<noteq> None"
    by code_simp
  then obtain c' where
    c: "run demo_URL [Stop_crawl, Page_done Page_failed, Delay_done] demo_session = Some c'"
    by auto
  have p: "finished_payloads
     (trace (the (run demo_URL [Stop_crawl, Page_done Page_failed, Delay_done] demo_session))) =
     [[\<lparr>bl_url = ''http://a.example/'', bl_status = ErrorMarker, bl_source = ''seed''\<rparr>]]"
    by code_simp
  show ?thesis
    using stop_then_finished_once [OF a b c] a b c p by simp
qed

subsection \<open>Schemes\<close>

lemma startsWith_before_colon:
  assumes "CHR '':'' \<notin> set q"
  shows "startsWith (s @ CHR '':'' # rest) q \<longleftrightarrow> startsWith s q"
proof (cases "length q \<le> length s")
  case True
  then show ?thesis by (simp add: startsWith_def)
next
  case False
  then have l: "length s < length q" by simp
  have "take (length q) s \<noteq> q"
  proof
    assume "take (length q) s = q"
    then have "length (take (length q) s) = length q" by simp
    then show False using l by simp
  qed
  moreover have "take (length q) (s @ CHR '':'' # rest) \<noteq> q"
  proof
    assume e: "take (length q) (s @ CHR '':'' # rest) = q"
    have "take (length q) (s @ CHR '':'' # rest) ! length s = CHR '':''"
      using l by (simp add: nth_append)
    then have "q ! length s = CHR '':''" using e by simp
    then show False using assms l by (metis nth_mem)
  qed
  ultimately show ?thesis by (simp add: startsWith_def)
qed

lemma startsWith_scheme:
  "startsWith (toString p) ''http'' \<longleftrightarrow> startsWith (url_scheme p) ''http''"
proof -
  obtain rest where t: "toString p = url_scheme p @ CHR '':'' # rest"
    by (simp add: toString_def)
  show ?thesis unfolding t by (rule startsWith_before_colon) simp
qed

lemma drain_pending: "pending_urls (drain c) = pending_urls c"
proof (induction c rule: drain.induct)
  case (1 c)
  show ?case
  proof (cases "drain_cond c")
    case True
    then have "externalCheckQueue c \<noteq> []" by (simp add: drain_cond_def)
    then obtain x xs where "externalCheckQueue c = x # xs" by (cases "externalCheckQueue c") auto
    then have "pending_urls (drain_body c) = pending_urls c"
      by (auto simp: pending_urls_def drain_body_def Let_def)
    then show ?thesis using 1 True by (simp add: drain_unfold)
  next
    case False
    then show ?thesis by (simp add: drain_unfold)
  qed
qed

lemma processExternalQueue_pending: "pending_urls (processExternalQueue c) = pending_urls c"
  using drain_pending [of "c\<lparr>isProcessingExternal := True\<rparr>"]
  by (simp add: processExternalQueue_def pending_urls_def)

lemma classify_adds:
  "checkedLinks (state_of (classify U cu d a c)) = insert a (checkedLinks c) \<and>
   set (queue (state_of (classify U cu d a c))) \<subseteq> insert (a, d + 1) (set (queue c)) \<and>
   pending_urls (state_of (classify U cu d a c)) \<subseteq> insert a (pending_urls c)"
proof -
  let ?c2 = "c\<lparr>checkedLinks := insert a (checkedLinks c),
                externalCheckQueue := externalCheckQueue c @ [(a, cu)]\<rparr>"
  have "pending_urls (processExternalQueue ?c2) = insert a (pending_urls c)"
    by (simp add: processExternalQueue_pending) (auto simp: pending_urls_def)
  then show ?thesis
    by (auto simp: classify_def Let_def pending_urls_def split: option.split)
qed

lemma process_link_cases:
  "process_link U cu d href c = Inr c \<or>
   (\<exists>a. startsWith a ''http'' \<and> process_link U cu d href c = classify U cu d a c)"
  by (auto simp: process_link_def split: option.split)

lemma process_link_discards:
  assumes "U h (Some cu) = Some p" and "U (toString p) None = Some q"
    and "\<not> startsWith (url_scheme q) ''http''"
  shows "process_link U cu d (Some h) c = Inr c"
proof -
  have "normalizeUrl U (toString p) = Some (toString (q\<lparr>url_fragment := None\<rparr>))"
    using assms(2) by (simp add: normalizeUrl_def)
  moreover have "\<not> startsWith (toString (q\<lparr>url_fragment := None\<rparr>)) ''http''"
    using assms(3) by (simp add: startsWith_scheme)
  ultimately show ?thesis
    using assms(1) by (simp add: process_link_def)
qed

text \<open>
  C4, as amended.  Whatever the callback of \<^verbatim>\<open>links.each\<close> adds for an anchor to the set
  of checked links, to the frontier, or to the URLs queued for or under verification, is a
  string that begins with \<^verbatim>\<open>http\<close>; and when the resolved URL parses to a scheme that
  does not begin with \<^verbatim>\<open>http\<close>, the callback returns with the state unchanged.
\<close>

theorem classified_urls_begin_with_http:
  "(\<forall>x \<in> checkedLinks (state_of (process_link U cu d href c)) - checkedLinks c.
      startsWith x ''http'') \<and>
   (\<forall>x \<in> set (queue (state_of (process_link U cu d href c))) - set (queue c).
      startsWith (fst x) ''http'') \<and>
   (\<forall>x \<in> pending_urls (state_of (process_link U cu d href c)) - pending_urls c.
      startsWith x ''http'') \<and>
   (\<forall>h p q. href = Some h \<and> U h (Some cu) = Some p \<and> U (toString p) None = Some q \<and>
      \<not> startsWith (url_scheme q) ''http'' \<longrightarrow>
      process_link U cu d href c = Inr c)"
proof -
  consider "process_link U cu d href c = Inr c"
    | a where "startsWith a ''http''" "process_link U cu d href c = classify U cu d a c"
    using process_link_cases by blast
  then have
    "(\<forall>x \<in> checkedLinks (state_of (process_link U cu d href c)) - checkedLinks c.
        startsWith x ''http'') \<and>
     (\<forall>x \<in> set (queue (state_of (process_link U cu d href c))) - set (queue c).
        startsWith (fst x) ''http'') \<and>
     (\<forall>x \<in> pending_urls (state_of (process_link U cu d href c)) - pending_urls c.
        startsWith x ''http'')"
  proof cases
    case 1
    then show ?thesis by simp
  next
    case 2
    then show ?thesis using classify_adds [of U cu d a c] by auto
  qed
  then show ?thesis using process_link_discards by blast
qed

theorem classified_urls_begin_with_http_witness:
  "demo_URL ''mailto:me@a.example'' (Some ''http://a.example/'') =
     Some \<lparr>url_scheme = ''mailto'', url_credentials = [], url_host = None, url_port = [],
            url_path = ''me@a.example'', url_query = None, url_fragment = None\<rparr> \<and>
   \<not> startsWith ''mailto'' ''http'' \<and>
   process_link demo_URL ''http://a.example/'' 0 (Some ''mailto:me@a.example'') demo_session =
     Inr demo_session"
proof -
  let ?p = "\<lparr>url_scheme = ''mailto'', url_credentials = [], url_host = None, url_port = [],
             url_path = ''me@a.example'', url_query = None, url_fragment = None\<rparr>"
  have a: "demo_URL ''mailto:me@a.example'' (Some ''http://a.example/'') = Some ?p"
    by code_simp
  have t: "toString ?p = ''mailto:me@a.example''"
    by (simp add: toString_def)
  have b: "demo_URL (toString ?p) None = Some ?p"
    unfolding t by code_simp
  have n: "\<not> startsWith (url_scheme ?p) ''http''"
    by (simp add: startsWith_def)
  have "process_link demo_URL ''http://a.example/'' 0 (Some ''mailto:me@a.example'') demo_session =
          Inr demo_session"
    using classified_urls_begin_with_http
      [of demo_URL "''http://a.example/''" 0 "Some ''mailto:me@a.example''" demo_session] a b n
    by blast
  then show ?thesis using a n by simp
qed

text \<open>
  C4, as stated, fails.  An anchor with the address \<^verbatim>\<open>httpx://evil.example/x\<close> resolves to
  a URL of scheme \<^verbatim>\<open>httpx\<close>, which is neither \<^verbatim>\<open>http\<close> nor \<^verbatim>\<open>https\<close>; the callback
  marks it checked and submits it to the external check queue, and its verification
  starts.
\<close>

theorem httpx_url_is_classified:
  "url_scheme (the (demo_URL ''httpx://evil.example/x'' (Some ''http://a.example/''))) = ''httpx'' \<and>
   ''httpx://evil.example/x'' \<in>
     checkedLinks
       (state_of (process_link demo_URL ''http://a.example/'' 0
                    (Some ''httpx://evil.example/x'') demo_session)) \<and>
   inflight
     (state_of (process_link demo_URL ''http://a.example/'' 0
                  (Some ''httpx://evil.example/x'') demo_session)) =
     [(''httpx://evil.example/x'', ''http://a.example/'', Await_head)] \<and>
   trace
     (the (run demo_URL
             [Page_done (Page_response 200 (Some ''text/html'') [Some ''httpx://evil.example/x''])]
             demo_session)) =
     [Emit (Log_start ''http://a.example/'' 2),
      Emit (Progress ''http://a.example/'' 1 0 0),
      Emit (Log_crawling 0 ''http://a.example/''),
      Page_get ''http://a.example/'',
      Load_html ''http://a.example/'' 0,
      Head_req ''httpx://evil.example/x'',
      Sleep 500]"
  by code_simp

end
